theory Spec2Isabelle
  imports Main
begin

section \<open>Events (src/app.ts, lines 19--73)\<close>

text \<open>
  The four classes implementing \<open>IEvent\<close>. A \<open>number\<close> payload is modelled as an
  unbounded integer: the driver only ever creates the quantities 1, 2, 3 and 5.
\<close>

datatype event =
    MachineSaleEvent int string
  | MachineRefillEvent int string
  | LowStockWarningEvent string
  | StockLevelOkEvent string

fun machineId :: "event \<Rightarrow> string" where
  "machineId (MachineSaleEvent sold m) = m"
| "machineId (MachineRefillEvent refill m) = m"
| "machineId (LowStockWarningEvent m) = m"
| "machineId (StockLevelOkEvent m) = m"

fun type :: "event \<Rightarrow> string" where
  "type (MachineSaleEvent sold m) = ''sale''"
| "type (MachineRefillEvent refill m) = ''refill''"
| "type (LowStockWarningEvent m) = ''lowStockWarning''"
| "type (StockLevelOkEvent m) = ''stockLevelOk''"

text \<open>
  \<open>getSoldQuantity\<close> and \<open>getRefillQuantity\<close> exist on one class each; calling
  them on an object of another class is a \<open>TypeError\<close> at run time, which is \<open>None\<close> here.
\<close>

fun getSoldQuantity :: "event \<Rightarrow> int option" where
  "getSoldQuantity (MachineSaleEvent sold m) = Some sold"
| "getSoldQuantity e = None"

fun getRefillQuantity :: "event \<Rightarrow> int option" where
  "getRefillQuantity (MachineRefillEvent refill m) = Some refill"
| "getRefillQuantity e = None"


section \<open>The containers of the dispatcher\<close>

text \<open>
  Subscribers are objects compared by reference; a reference is a natural number.
\<close>

type_synonym ref = nat

text \<open>
  A JavaScript \<open>Set\<close>, as ECMA-262 specifies it: the list \<open>[[SetData]]\<close> of entries in
  insertion order, where \<open>delete\<close> overwrites an entry by the marker \<open>empty\<close> (\<open>None\<close>)
  without moving the others, and \<open>add\<close> appends a value that is not among the entries.
  The representation matters because \<open>forEach\<close> walks this list by index while the
  callback may change it.
\<close>

type_synonym 'a js_set = "'a option list"

definition Set_add :: "'a js_set \<Rightarrow> 'a \<Rightarrow> 'a js_set" where
  "Set_add S x = (if Some x \<in> set S then S else S @ [Some x])"

definition Set_delete :: "'a js_set \<Rightarrow> 'a \<Rightarrow> 'a js_set" where
  "Set_delete S x = map (\<lambda>entry. if entry = Some x then None else entry) S"

text \<open>The members of a set, in insertion order: what \<open>has\<close>, \<open>size\<close> and an iteration
  from the start can observe.\<close>

fun members :: "'a js_set \<Rightarrow> 'a list" where
  "members [] = []"
| "members (None # S) = members S"
| "members (Some x # S) = x # members S"

text \<open>The fields of \<open>PubSubService\<close> (lines 172--174), and \<open>subscribe\<close> and
  \<open>unsubscribe\<close> (lines 184--195) as functions on them.\<close>

record PubSubService =
  subscribers :: "string \<rightharpoonup> ref js_set"
  eventQueue :: "event list"
  isProcessing :: bool

definition subscribe :: "string \<Rightarrow> ref \<Rightarrow> PubSubService \<Rightarrow> PubSubService" where
  "subscribe t handler P =
     (case subscribers P t of
        None \<Rightarrow> P\<lparr>subscribers := (subscribers P)(t \<mapsto> Set_add [] handler)\<rparr>
      | Some S \<Rightarrow> P\<lparr>subscribers := (subscribers P)(t \<mapsto> Set_add S handler)\<rparr>)"

definition unsubscribe :: "string \<Rightarrow> ref \<Rightarrow> PubSubService \<Rightarrow> PubSubService" where
  "unsubscribe t handler P =
     (case subscribers P t of
        None \<Rightarrow> P
      | Some S \<Rightarrow> P\<lparr>subscribers := (subscribers P)(t \<mapsto> Set_delete S handler)\<rparr>)"

text \<open>The subscribers registered for a kind, in insertion order; a kind without an
  entry has none.\<close>

definition registered :: "PubSubService \<Rightarrow> string \<Rightarrow> ref list" where
  "registered P t = (case subscribers P t of None \<Rightarrow> [] | Some S \<Rightarrow> members S)"

text \<open>The entries of the \<open>Set\<close> stored for a kind, markers included; none for a kind
  without an entry.\<close>

definition entries :: "PubSubService \<Rightarrow> string \<Rightarrow> ref js_set" where
  "entries P t = (case subscribers P t of None \<Rightarrow> [] | Some S \<Rightarrow> S)"

text \<open>How the entries of one \<open>Set\<close> object can change over time: entries are appended,
  and an entry is overwritten by the marker, never by another value.\<close>

definition evolves :: "'a js_set \<Rightarrow> 'a js_set \<Rightarrow> bool" where
  "evolves S S' \<longleftrightarrow> length S \<le> length S' \<and> (\<forall>j<length S. S' ! j = S ! j \<or> S' ! j = None)"


section \<open>Handlers and the world they run in\<close>

text \<open>
  A \<open>handle\<close> method is arbitrary code. What it can do to the dispatcher is call its
  three public methods (the fields are private); everything else it touches (its own
  fields, the machines, the console) is the heap \<open>'u\<close>. A handler body is a tree of
  these steps, ending in a normal return or a \<open>throw\<close>.
\<close>

datatype 'u prog =
    Return
  | Raise
  | Publish event "'u prog"
  | Subscribe string ref "'u prog"
  | Unsubscribe string ref "'u prog"
  | Get "'u \<Rightarrow> 'u prog"
  | Put 'u "'u prog"

text \<open>
  The trace records, in order, every call of a dispatcher method, every event taken
  from the queue, every \<open>handle\<close> invocation, and the entry and normal exit of
  \<open>processEventQueue\<close>. It is an observation only: no function reads it.
\<close>

datatype call =
    Published event
  | Shifted event
  | Handled ref event
  | Subscribed string ref
  | Unsubscribed string ref
  | DrainBegin
  | DrainEnd

record 'u world =
  service :: PubSubService
  heap :: 'u
  trace :: "call list"

datatype 'u outcome = Returned "'u world" | Threw "'u world"

fun world_of :: "'u outcome \<Rightarrow> 'u world" where
  "world_of (Returned w) = w"
| "world_of (Threw w) = w"

definition record_call :: "call \<Rightarrow> 'u world \<Rightarrow> 'u world" where
  "record_call c w = w\<lparr>trace := trace w @ [c]\<rparr>"

definition push :: "event \<Rightarrow> 'u world \<Rightarrow> 'u world" where
  "push e w = w\<lparr>service := (service w)\<lparr>eventQueue := eventQueue (service w) @ [e]\<rparr>\<rparr>"

definition set_isProcessing :: "bool \<Rightarrow> 'u world \<Rightarrow> 'u world" where
  "set_isProcessing b w = w\<lparr>service := (service w)\<lparr>isProcessing := b\<rparr>\<rparr>"

definition set_eventQueue :: "event list \<Rightarrow> 'u world \<Rightarrow> 'u world" where
  "set_eventQueue q w = w\<lparr>service := (service w)\<lparr>eventQueue := q\<rparr>\<rparr>"


section \<open>The dispatcher (src/app.ts, lines 171--209)\<close>

text \<open>
  \<open>H s\<close> is the \<open>handle\<close> method of the subscriber object \<open>s\<close>. A drain need not end (a
  handler may publish for ever, or leave and re-enter the set that is being walked), so
  every function takes fuel, one unit per call, and \<open>None\<close> is "has not returned yet".

  \<open>forEach H n e i\<close> is the call \<open>eventSubscribers.forEach(...)\<close> of line 204 for the
  event \<open>e\<close>, about to read entry \<open>i\<close>. The \<open>Set\<close> object it walks is the one stored under
  \<open>type e\<close>: an entry of the map is never replaced or removed (\<open>subscribe\<close> stores a new
  \<open>Set\<close> only for a key that has none), so the current contents of that object are
  \<open>subscribers\<close> at \<open>type e\<close>.
\<close>

fun publish :: "(ref \<Rightarrow> event \<Rightarrow> 'u prog) \<Rightarrow> nat \<Rightarrow> event \<Rightarrow> 'u world \<Rightarrow> 'u outcome option"
and processEventQueue :: "(ref \<Rightarrow> event \<Rightarrow> 'u prog) \<Rightarrow> nat \<Rightarrow> 'u world \<Rightarrow> 'u outcome option"
and while_loop :: "(ref \<Rightarrow> event \<Rightarrow> 'u prog) \<Rightarrow> nat \<Rightarrow> 'u world \<Rightarrow> 'u outcome option"
and forEach :: "(ref \<Rightarrow> event \<Rightarrow> 'u prog) \<Rightarrow> nat \<Rightarrow> event \<Rightarrow> nat \<Rightarrow> 'u world \<Rightarrow> 'u outcome option"
and run :: "(ref \<Rightarrow> event \<Rightarrow> 'u prog) \<Rightarrow> nat \<Rightarrow> 'u prog \<Rightarrow> 'u world \<Rightarrow> 'u outcome option"
where
  "publish H 0 e w = None"
| "publish H (Suc n) e w =
     (let w1 = push e (record_call (Published e) w) in
      if \<not> isProcessing (service w1) then processEventQueue H n w1
      else Some (Returned w1))"
| "processEventQueue H 0 w = None"
| "processEventQueue H (Suc n) w =
     (case while_loop H n (set_isProcessing True (record_call DrainBegin w)) of
        Some (Returned w') \<Rightarrow> Some (Returned (record_call DrainEnd (set_isProcessing False w')))
      | r \<Rightarrow> r)"
| "while_loop H 0 w = None"
| "while_loop H (Suc n) w =
     (case eventQueue (service w) of
        [] \<Rightarrow> Some (Returned w)
      | e # rest \<Rightarrow>
          (let w1 = set_eventQueue rest (record_call (Shifted e) w) in
           case subscribers (service w1) (type e) of
             None \<Rightarrow> while_loop H n w1
           | Some eventSubscribers \<Rightarrow>
               (case forEach H n e 0 w1 of
                  Some (Returned w2) \<Rightarrow> while_loop H n w2
                | r \<Rightarrow> r)))"
| "forEach H 0 e i w = None"
| "forEach H (Suc n) e i w =
     (case subscribers (service w) (type e) of
        None \<Rightarrow> Some (Returned w)
      | Some S \<Rightarrow>
          if i < length S then
            (case S ! i of
               None \<Rightarrow> forEach H n e (i + 1) w
             | Some subscriber \<Rightarrow>
                 (case run H n (H subscriber e) (record_call (Handled subscriber e) w) of
                    Some (Returned w') \<Rightarrow> forEach H n e (i + 1) w'
                  | r \<Rightarrow> r))
          else Some (Returned w))"
| "run H 0 p w = None"
| "run H (Suc n) Return w = Some (Returned w)"
| "run H (Suc n) Raise w = Some (Threw w)"
| "run H (Suc n) (Publish e p) w =
     (case publish H n e w of
        Some (Returned w') \<Rightarrow> run H n p w'
      | r \<Rightarrow> r)"
| "run H (Suc n) (Subscribe t s p) w =
     run H n p (record_call (Subscribed t s) (w\<lparr>service := subscribe t s (service w)\<rparr>))"
| "run H (Suc n) (Unsubscribe t s p) w =
     run H n p (record_call (Unsubscribed t s) (w\<lparr>service := unsubscribe t s (service w)\<rparr>))"
| "run H (Suc n) (Get f) w = run H n (f (heap w)) w"
| "run H (Suc n) (Put h p) w = run H n p (w\<lparr>heap := h\<rparr>)"

section \<open>Calls from outside the handlers\<close>

text \<open>
  A program uses the dispatcher through its three public methods. The driver makes four
  \<open>subscribe\<close> calls and then publishes a list of events one after the other (lines
  221--229). \<open>perform\<close> makes a list of such calls in order; an exception that leaves
  \<open>publish\<close> ends it.
\<close>

datatype request =
    Request_publish event
  | Request_subscribe string ref
  | Request_unsubscribe string ref

fun perform :: "(ref \<Rightarrow> event \<Rightarrow> 'u prog) \<Rightarrow> nat \<Rightarrow> request list \<Rightarrow> 'u world \<Rightarrow> 'u outcome option" where
  "perform H n [] w = Some (Returned w)"
| "perform H n (Request_publish e # requests) w =
     (case publish H n e w of
        Some (Returned w') \<Rightarrow> perform H n requests w'
      | r \<Rightarrow> r)"
| "perform H n (Request_subscribe t s # requests) w =
     perform H n requests (record_call (Subscribed t s) (w\<lparr>service := subscribe t s (service w)\<rparr>))"
| "perform H n (Request_unsubscribe t s # requests) w =
     perform H n requests (record_call (Unsubscribed t s) (w\<lparr>service := unsubscribe t s (service w)\<rparr>))"


section \<open>Machines and the three subscribers (src/app.ts, lines 75--146)\<close>

text \<open>The field \<open>id\<close> of a machine is \<open>Machine_id\<close> here, \<open>id\<close> being the identity
  function.\<close>

record Machine =
  stockLevel :: int
  Machine_id :: string

text \<open>Each line written by \<open>console.log\<close>, by its template.\<close>

datatype message =
    SoldItem string int
  | LowOnStock string int
  | Refilled string int
  | StockIsOk string int
  | LowStockWarning string
  | StockLevelOK string

text \<open>
  The objects of \<open>normalCase\<close> outside the dispatcher: the array of machines that the
  sale and the refill subscriber share, the \<open>warningStates\<close> map of the stock-warning
  subscriber, and the console.
\<close>

record app_heap =
  machines :: "Machine list"
  warningStates :: "string \<rightharpoonup> bool"
  console :: "message list"

text \<open>\<open>machine.stockLevel = v\<close> for the machine that \<open>find\<close> returned: the first one
  with the identifier.\<close>

fun set_stockLevel :: "string \<Rightarrow> int \<Rightarrow> Machine list \<Rightarrow> Machine list" where
  "set_stockLevel m v [] = []"
| "set_stockLevel m v (x # xs) =
     (if Machine_id x = m then x\<lparr>stockLevel := v\<rparr> # xs else x # set_stockLevel m v xs)"

text \<open>\<open>console.log\<close> appends a line.\<close>

definition log :: "message \<Rightarrow> app_heap \<Rightarrow> app_heap" where
  "log msg h = h\<lparr>console := console h @ [msg]\<rparr>"

definition MachineSaleSubscriber_handle :: "event \<Rightarrow> app_heap prog" where
  "MachineSaleSubscriber_handle event = Get (\<lambda>h.
     case find (\<lambda>m. Machine_id m = machineId event) (machines h) of
       None \<Rightarrow> Return
     | Some machine \<Rightarrow>
         (case getSoldQuantity event of
            None \<Rightarrow> Raise
          | Some sold \<Rightarrow>
              (let level = stockLevel machine - sold;
                   h1 = log (SoldItem (Machine_id machine) level)
                          (h\<lparr>machines := set_stockLevel (Machine_id machine) level (machines h)\<rparr>)
               in Put h1
                    (if level < 3 then
                       Put (log (LowOnStock (Machine_id machine) level) h1)
                         (Publish (LowStockWarningEvent (Machine_id machine)) Return)
                     else Return))))"

definition MachineRefillSubscriber_handle :: "event \<Rightarrow> app_heap prog" where
  "MachineRefillSubscriber_handle event = Get (\<lambda>h.
     case find (\<lambda>m. Machine_id m = machineId event) (machines h) of
       None \<Rightarrow> Return
     | Some machine \<Rightarrow>
         (case getRefillQuantity event of
            None \<Rightarrow> Raise
          | Some refill \<Rightarrow>
              (let level = stockLevel machine + refill;
                   h1 = log (Refilled (Machine_id machine) level)
                          (h\<lparr>machines := set_stockLevel (Machine_id machine) level (machines h)\<rparr>)
               in Put h1
                    (if level \<ge> 3 then
                       Put (log (StockIsOk (Machine_id machine) level) h1)
                         (Publish (StockLevelOkEvent (Machine_id machine)) Return)
                     else Return))))"

text \<open>
  The stock-warning subscriber calls no dispatcher method and cannot throw: its
  \<open>handle\<close> is a function on the heap. \<open>warningStates.get\<close> of an unknown machine is
  \<open>undefined\<close>, which is falsy.
\<close>

definition warned :: "app_heap \<Rightarrow> string \<Rightarrow> bool" where
  "warned h m = (warningStates h m = Some True)"

fun StockWarningSubscriber_handle :: "event \<Rightarrow> app_heap \<Rightarrow> app_heap" where
  "StockWarningSubscriber_handle (LowStockWarningEvent m) h =
     (if \<not> warned h m
      then (log (LowStockWarning m) h)\<lparr>warningStates := (warningStates h)(m \<mapsto> True)\<rparr>
      else h)"
| "StockWarningSubscriber_handle (StockLevelOkEvent m) h =
     (if warned h m
      then (log (StockLevelOK m) h)\<lparr>warningStates := (warningStates h)(m \<mapsto> False)\<rparr>
      else h)"
| "StockWarningSubscriber_handle e h = h"

text \<open>The wiring of \<open>normalCase\<close> (lines 215--224): three machines with the initial
  stock of 10, the three subscriber objects 0, 1 and 2, and the four subscriptions.\<close>

definition saleSubscriber :: ref where "saleSubscriber = 0"
definition refillSubscriber :: ref where "refillSubscriber = 1"
definition stockWarningSubscriber :: ref where "stockWarningSubscriber = 2"

definition handlers :: "ref \<Rightarrow> event \<Rightarrow> app_heap prog" where
  "handlers s event =
     (if s = saleSubscriber then MachineSaleSubscriber_handle event
      else if s = refillSubscriber then MachineRefillSubscriber_handle event
      else Get (\<lambda>h. Put (StockWarningSubscriber_handle event h) Return))"

definition new_Machine :: "string \<Rightarrow> Machine" where
  "new_Machine m = \<lparr>stockLevel = 10, Machine_id = m\<rparr>"

definition new_PubSubService :: PubSubService where
  "new_PubSubService = \<lparr>subscribers = Map.empty, eventQueue = [], isProcessing = False\<rparr>"


definition normalCase :: "app_heap world" where
  "normalCase =
     \<lparr>service =
        subscribe ''stockLevelOk'' stockWarningSubscriber
          (subscribe ''lowStockWarning'' stockWarningSubscriber
            (subscribe ''refill'' refillSubscriber
              (subscribe ''sale'' saleSubscriber new_PubSubService))),
      heap = \<lparr>machines = [new_Machine ''001'', new_Machine ''002'', new_Machine ''003''],
               warningStates = Map.empty, console = []\<rparr>,
      trace = []\<rparr>"



text \<open>
  The same system with one more subscription, \<open>subscribe('refill', saleSubscriber)\<close>. It
  type-checks, since \<open>MachineSaleSubscriber\<close> implements \<open>ISubscriber\<close>; its \<open>handle\<close>
  then receives refill events, which have no \<open>getSoldQuantity\<close>.
\<close>

definition miswired :: "app_heap world" where
  "miswired = normalCase\<lparr>service := subscribe ''refill'' saleSubscriber (service normalCase)\<rparr>"

text \<open>
  Three subscribers of another program: subscriber 0 unsubscribes subscriber 1 from the
  kind of the event it handles and subscribes subscriber 2 to it; 1 and 2 do nothing.
  Subscribers 0 and 1 are registered for sales.
\<close>

definition meddler :: "ref \<Rightarrow> event \<Rightarrow> unit prog" where
  "meddler s e =
     (if s = 0 then Unsubscribe (type e) 1 (Subscribe (type e) 2 Return) else Return)"

definition meddled :: "unit world" where
  "meddled =
     \<lparr>service = subscribe ''sale'' 1 (subscribe ''sale'' 0 new_PubSubService),
      heap = (), trace = []\<rparr>"


text \<open>The wired system after \<open>subscribe\<close> and \<open>unsubscribe\<close> of a pair that was already
  registered, and of a pair that was not.\<close>

definition unwired :: "app_heap world" where
  "unwired = normalCase\<lparr>service :=
     unsubscribe ''sale'' saleSubscriber (subscribe ''sale'' saleSubscriber (service normalCase))\<rparr>"

definition rewired :: "app_heap world" where
  "rewired = normalCase\<lparr>service :=
     unsubscribe ''sale'' stockWarningSubscriber
       (subscribe ''sale'' stockWarningSubscriber (service normalCase))\<rparr>"

section \<open>Reading results\<close>

text \<open>\<open>returns r Q\<close>: the call has returned normally, in a world that satisfies \<open>Q\<close>.\<close>

fun returns :: "'u outcome option \<Rightarrow> ('u world \<Rightarrow> bool) \<Rightarrow> bool" where
  "returns (Some (Returned w)) Q = Q w"
| "returns r Q = False"

text \<open>The world in which a call has returned normally, if it has.\<close>

fun returned :: "'u outcome option \<Rightarrow> 'u world option" where
  "returned (Some (Returned w)) = Some w"
| "returned r = None"

text \<open>\<open>throws r Q\<close>: the call has ended by an exception, in a world that satisfies \<open>Q\<close>.\<close>

fun throws :: "'u outcome option \<Rightarrow> ('u world \<Rightarrow> bool) \<Rightarrow> bool" where
  "throws (Some (Threw w)) Q = Q w"
| "throws r Q = False"


section \<open>Reading traces\<close>

text \<open>
  The effect of each recorded step on the dispatcher's fields, and the state that a
  list of steps leads to.
\<close>

fun apply_call :: "call \<Rightarrow> PubSubService \<Rightarrow> PubSubService" where
  "apply_call (Published e) P = P\<lparr>eventQueue := eventQueue P @ [e]\<rparr>"
| "apply_call (Shifted e) P = P\<lparr>eventQueue := tl (eventQueue P)\<rparr>"
| "apply_call (Handled s e) P = P"
| "apply_call (Subscribed t s) P = subscribe t s P"
| "apply_call (Unsubscribed t s) P = unsubscribe t s P"
| "apply_call DrainBegin P = P\<lparr>isProcessing := True\<rparr>"
| "apply_call DrainEnd P = P\<lparr>isProcessing := False\<rparr>"

definition replay :: "call list \<Rightarrow> PubSubService \<Rightarrow> PubSubService" where
  "replay calls P = fold apply_call calls P"

fun is_api :: "call \<Rightarrow> bool" where
  "is_api (Published e) = True"
| "is_api (Subscribed t s) = True"
| "is_api (Unsubscribed t s) = True"
| "is_api c = False"

fun published :: "call list \<Rightarrow> event list" where
  "published [] = []"
| "published (Published e # calls) = e # published calls"
| "published (c # calls) = published calls"

fun shifted :: "call list \<Rightarrow> event list" where
  "shifted [] = []"
| "shifted (Shifted e # calls) = e # shifted calls"
| "shifted (c # calls) = shifted calls"

definition new_calls :: "'u world \<Rightarrow> 'u outcome \<Rightarrow> call list" where
  "new_calls w r = drop (length (trace w)) (trace (world_of r))"

fun is_delivery :: "event \<Rightarrow> call \<Rightarrow> bool" where
  "is_delivery e (Handled s e') = (e' = e)"
| "is_delivery e c = is_api c"

fun handled_registered :: "PubSubService \<Rightarrow> call list \<Rightarrow> bool" where
  "handled_registered P [] = True"
| "handled_registered P (Handled s e # calls) =
     (s \<in> set (registered P (type e)) \<and> handled_registered P calls)"
| "handled_registered P (c # calls) = handled_registered (apply_call c P) calls"

fun grouped :: "event option \<Rightarrow> call list \<Rightarrow> bool" where
  "grouped cur [] = True"
| "grouped cur (Shifted e # calls) = grouped (Some e) calls"
| "grouped cur (Handled s e # calls) = (cur = Some e \<and> grouped cur calls)"
| "grouped cur (c # calls) = grouped cur calls"

definition drain_calls :: "PubSubService \<Rightarrow> call list \<Rightarrow> bool" where
  "drain_calls P seg \<longleftrightarrow>
     DrainBegin \<notin> set seg \<and> DrainEnd \<notin> set seg \<and> (\<forall>cur. grouped cur seg) \<and>
     handled_registered P seg \<and>
     shifted seg @ eventQueue (replay seg P) = eventQueue P @ published seg"



text \<open>The subscribers invoked, in order; and whether a call changes the set of a kind.\<close>

fun recipients :: "call list \<Rightarrow> ref list" where
  "recipients [] = []"
| "recipients (Handled s e # calls) = s # recipients calls"
| "recipients (c # calls) = recipients calls"

fun touches :: "string \<Rightarrow> call \<Rightarrow> bool" where
  "touches t (Subscribed t' s) = (t' = t)"
| "touches t (Unsubscribed t' s) = (t' = t)"
| "touches t c = False"


section \<open>What can be observed of the registry\<close>

text \<open>
  A program can observe of a \<open>Set\<close> its members and their order, not the markers that
  deleted entries leave in the model, and the map of the dispatcher is private. Two
  dispatcher states are the same to an observer when every kind has the same
  registered subscribers in the same order (a kind without entry has none), and the
  queue and the drain flag agree; two worlds, when moreover heap and trace agree.
\<close>

definition same_service :: "PubSubService \<Rightarrow> PubSubService \<Rightarrow> bool" where
  "same_service P Q \<longleftrightarrow>
     (\<forall>t. registered P t = registered Q t) \<and> eventQueue P = eventQueue Q \<and>
     isProcessing P = isProcessing Q"

definition alike :: "'u world \<Rightarrow> 'u world \<Rightarrow> bool" where
  "alike w v \<longleftrightarrow> same_service (service w) (service v) \<and> heap w = heap v \<and> trace w = trace v"

fun alike_outcome :: "'u outcome \<Rightarrow> 'u outcome \<Rightarrow> bool" where
  "alike_outcome (Returned w) (Returned v) = alike w v"
| "alike_outcome (Threw w) (Threw v) = alike w v"
| "alike_outcome r r' = False"

text \<open>The members that a walk of the set of a kind, standing at entry \<open>i\<close>, has still to
  visit.\<close>

definition pending :: "PubSubService \<Rightarrow> string \<Rightarrow> nat \<Rightarrow> ref list" where
  "pending P t i = members (drop i (entries P t))"


section \<open>What a call does to the dispatcher, step by step\<close>

lemma replay_Nil [simp]: "replay [] P = P"
  by (simp add: replay_def)

lemma replay_Cons [simp]: "replay (c # calls) P = replay calls (apply_call c P)"
  by (simp add: replay_def)

lemma replay_append [simp]: "replay (xs @ ys) P = replay ys (replay xs P)"
  by (simp add: replay_def)

lemma published_append [simp]: "published (xs @ ys) = published xs @ published ys"
  by (induction xs rule: published.induct) auto

lemma shifted_append [simp]: "shifted (xs @ ys) = shifted xs @ shifted ys"
  by (induction xs rule: shifted.induct) auto

lemma isProcessing_subscribe [simp]: "isProcessing (subscribe t s P) = isProcessing P"
  by (simp add: subscribe_def split: option.splits)

lemma isProcessing_unsubscribe [simp]: "isProcessing (unsubscribe t s P) = isProcessing P"
  by (simp add: unsubscribe_def split: option.splits)

lemma eventQueue_subscribe [simp]: "eventQueue (subscribe t s P) = eventQueue P"
  by (simp add: subscribe_def split: option.splits)

lemma eventQueue_unsubscribe [simp]: "eventQueue (unsubscribe t s P) = eventQueue P"
  by (simp add: unsubscribe_def split: option.splits)

lemma publish_inside:
  assumes "publish H n e w = Some r" and "isProcessing (service w)"
  shows "r = Returned (push e (record_call (Published e) w))"
  using assms by (cases n) (auto simp: push_def record_call_def)

lemma run_inside:
  assumes "run H n p w = Some r" and "isProcessing (service w)"
  shows "\<exists>seg. trace (world_of r) = trace w @ seg \<and> list_all is_api seg \<and>
           service (world_of r) = replay seg (service w)"
  using assms
proof (induction n arbitrary: p w)
  case 0
  then show ?case by simp
next
  case (Suc n)
  show ?case
  proof (cases p)
    case Return
    with Suc.prems show ?thesis by auto
  next
    case Raise
    with Suc.prems show ?thesis by auto
  next
    case (Publish e q)
    show ?thesis
    proof (cases "publish H n e w")
      case None
      with Suc.prems Publish show ?thesis by simp
    next
      case (Some r1)
      let ?w1 = "push e (record_call (Published e) w)"
      have r1: "r1 = Returned ?w1"
        using publish_inside [OF Some Suc.prems(2)] .
      with Suc.prems Publish Some have "run H n q ?w1 = Some r" by simp
      moreover have "isProcessing (service ?w1)"
        using Suc.prems(2) by (simp add: push_def record_call_def)
      ultimately obtain seg where "trace (world_of r) = trace ?w1 @ seg" "list_all is_api seg"
        "service (world_of r) = replay seg (service ?w1)"
        using Suc.IH by blast
      then have "trace (world_of r) = trace w @ (Published e # seg) \<and> list_all is_api (Published e # seg) \<and>
           service (world_of r) = replay (Published e # seg) (service w)"
        by (simp add: push_def record_call_def)
      then show ?thesis by blast
    qed
  next
    case (Subscribe t s q)
    let ?w1 = "record_call (Subscribed t s) (w\<lparr>service := subscribe t s (service w)\<rparr>)"
    from Suc.prems Subscribe have "run H n q ?w1 = Some r" by simp
    moreover have "isProcessing (service ?w1)"
      using Suc.prems(2) by (simp add: record_call_def)
    ultimately obtain seg where "trace (world_of r) = trace ?w1 @ seg" "list_all is_api seg"
        "service (world_of r) = replay seg (service ?w1)"
      using Suc.IH by blast
    then have "trace (world_of r) = trace w @ (Subscribed t s # seg) \<and> list_all is_api (Subscribed t s # seg) \<and>
           service (world_of r) = replay (Subscribed t s # seg) (service w)"
      by (simp add: record_call_def)
    then show ?thesis by blast
  next
    case (Unsubscribe t s q)
    let ?w1 = "record_call (Unsubscribed t s) (w\<lparr>service := unsubscribe t s (service w)\<rparr>)"
    from Suc.prems Unsubscribe have "run H n q ?w1 = Some r" by simp
    moreover have "isProcessing (service ?w1)"
      using Suc.prems(2) by (simp add: record_call_def)
    ultimately obtain seg where "trace (world_of r) = trace ?w1 @ seg" "list_all is_api seg"
        "service (world_of r) = replay seg (service ?w1)"
      using Suc.IH by blast
    then have "trace (world_of r) = trace w @ (Unsubscribed t s # seg) \<and> list_all is_api (Unsubscribed t s # seg) \<and>
           service (world_of r) = replay (Unsubscribed t s # seg) (service w)"
      by (simp add: record_call_def)
    then show ?thesis by blast
  next
    case (Get f)
    with Suc.prems have "run H n (f (heap w)) w = Some r" by simp
    then show ?thesis using Suc.IH Suc.prems(2) by blast
  next
    case (Put h q)
    with Suc.prems have "run H n q (w\<lparr>heap := h\<rparr>) = Some r" by simp
    moreover have "isProcessing (service (w\<lparr>heap := h\<rparr>))" using Suc.prems(2) by simp
    ultimately obtain seg where "trace (world_of r) = trace (w\<lparr>heap := h\<rparr>) @ seg" "list_all is_api seg"
        "service (world_of r) = replay seg (service (w\<lparr>heap := h\<rparr>))"
      using Suc.IH by blast
    then show ?thesis by auto
  qed
qed

lemma handled_registered_append:
  "handled_registered P (xs @ ys) = (handled_registered P xs \<and> handled_registered (replay xs P) ys)"
  by (induction P xs rule: handled_registered.induct) auto

lemma handled_registered_api: "list_all is_api seg \<Longrightarrow> handled_registered P seg"
  by (induction P seg rule: handled_registered.induct) auto

lemma api_is_delivery: "list_all is_api seg \<Longrightarrow> list_all (is_delivery e) seg"
  by (induction seg) (auto elim: is_api.elims)

lemma delivery_no_drain:
  "list_all (is_delivery e) seg \<Longrightarrow> DrainBegin \<notin> set seg \<and> DrainEnd \<notin> set seg \<and> shifted seg = []"
proof (induction seg)
  case Nil
  then show ?case by simp
next
  case (Cons c seg)
  then show ?case by (cases c) auto
qed

lemma delivery_grouped: "list_all (is_delivery e) seg \<Longrightarrow> grouped (Some e) seg"
proof (induction seg)
  case Nil
  then show ?case by simp
next
  case (Cons c seg)
  then show ?case by (cases c) auto
qed

lemma grouped_append:
  "grouped cur xs \<Longrightarrow> (\<And>c. grouped c ys) \<Longrightarrow> grouped cur (xs @ ys)"
  by (induction cur xs rule: grouped.induct) auto

lemma isProcessing_replay:
  "DrainBegin \<notin> set seg \<Longrightarrow> DrainEnd \<notin> set seg \<Longrightarrow> isProcessing (replay seg P) = isProcessing P"
proof (induction seg arbitrary: P)
  case Nil
  then show ?case by simp
next
  case (Cons c seg)
  then show ?case by (cases c) auto
qed

lemma eventQueue_replay:
  "shifted seg = [] \<Longrightarrow> eventQueue (replay seg P) = eventQueue P @ published seg"
proof (induction seg arbitrary: P)
  case Nil
  then show ?case by simp
next
  case (Cons c seg)
  then show ?case by (cases c) auto
qed

lemma set_members: "set (members S) = {x. Some x \<in> set S}"
  by (induction S rule: members.induct) auto

lemma Some_in_members: "Some x \<in> set S \<Longrightarrow> x \<in> set (members S)"
  by (simp add: set_members)

lemma forEach_inside:
  assumes "forEach H n e i w = Some r" and "isProcessing (service w)"
  shows "\<exists>seg. trace (world_of r) = trace w @ seg \<and> list_all (is_delivery e) seg \<and>
           service (world_of r) = replay seg (service w) \<and> handled_registered (service w) seg"
  using assms
proof (induction n arbitrary: i w)
  case 0
  then show ?case by simp
next
  case (Suc n)
  show ?case
  proof (cases "subscribers (service w) (type e)")
    case None
    with Suc.prems show ?thesis by auto
  next
    case (Some entries)
    show ?thesis
    proof (cases "i < length entries")
      case False
      with Suc.prems Some show ?thesis by auto
    next
      case inside: True
      show ?thesis
      proof (cases "entries ! i")
        case None
        with Suc.prems Some inside have "forEach H n e (i + 1) w = Some r" by simp
        then show ?thesis using Suc.IH Suc.prems(2) by blast
      next
        case (Some s)
        let ?w1 = "record_call (Handled s e) w"
        have member: "s \<in> set (registered (service w) (type e))"
          using \<open>subscribers (service w) (type e) = Some entries\<close> inside Some
          by (auto simp: registered_def intro!: Some_in_members) (metis nth_mem)
        have flag1: "isProcessing (service ?w1)"
          using Suc.prems(2) by (simp add: record_call_def)
        show ?thesis
        proof (cases "run H n (H s e) ?w1")
          case None
          with Suc.prems \<open>subscribers (service w) (type e) = Some entries\<close> inside Some
          show ?thesis by simp
        next
          case run: (Some r1)
          obtain seg1 where seg1: "trace (world_of r1) = trace ?w1 @ seg1" "list_all is_api seg1"
            "service (world_of r1) = replay seg1 (service ?w1)"
            using run_inside [OF run flag1] by blast
          have shape1: "trace (world_of r1) = trace w @ (Handled s e # seg1)"
            "list_all (is_delivery e) (Handled s e # seg1)"
            "service (world_of r1) = replay (Handled s e # seg1) (service w)"
            "handled_registered (service w) (Handled s e # seg1)"
            using seg1 member by (simp_all add: record_call_def api_is_delivery handled_registered_api)
          show ?thesis
          proof (cases r1)
            case (Threw w')
            with Suc.prems \<open>subscribers (service w) (type e) = Some entries\<close> inside Some run
            have "r = r1" by simp
            then show ?thesis using shape1 by blast
          next
            case (Returned w')
            with Suc.prems \<open>subscribers (service w) (type e) = Some entries\<close> inside Some run
            have rest: "forEach H n e (i + 1) w' = Some r" by simp
            have "isProcessing (service w')"
              using shape1(3) Returned Suc.prems(2) delivery_no_drain [OF shape1(2)]
              by (simp add: isProcessing_replay del: replay_Cons)
            then obtain seg2 where seg2: "trace (world_of r) = trace w' @ seg2"
              "list_all (is_delivery e) seg2" "service (world_of r) = replay seg2 (service w')"
              "handled_registered (service w') seg2"
              using Suc.IH [OF rest] by blast
            have "trace (world_of r) = trace w @ ((Handled s e # seg1) @ seg2) \<and>
                  list_all (is_delivery e) ((Handled s e # seg1) @ seg2) \<and>
                  service (world_of r) = replay ((Handled s e # seg1) @ seg2) (service w) \<and>
                  handled_registered (service w) ((Handled s e # seg1) @ seg2)"
              using shape1 seg2 Returned
              by (simp only: handled_registered_append replay_append list_all_append world_of.simps append_assoc)
            then show ?thesis by blast
          qed
        qed
      qed
    qed
  qed
qed

lemma drain_calls_Nil: "drain_calls P []"
  by (simp add: drain_calls_def)

lemma drain_calls_append:
  assumes "drain_calls P xs" and "drain_calls (replay xs P) ys"
  shows "drain_calls P (xs @ ys)"
proof -
  have "shifted (xs @ ys) @ eventQueue (replay (xs @ ys) P) =
        shifted xs @ (shifted ys @ eventQueue (replay ys (replay xs P)))"
    by simp
  also have "\<dots> = shifted xs @ (eventQueue (replay xs P) @ published ys)"
    using assms(2) by (simp only: drain_calls_def)
  also have "\<dots> = (shifted xs @ eventQueue (replay xs P)) @ published ys"
    by simp
  also have "\<dots> = eventQueue P @ published (xs @ ys)"
    using assms(1) by (simp add: drain_calls_def)
  finally have fifo: "shifted (xs @ ys) @ eventQueue (replay (xs @ ys) P) =
        eventQueue P @ published (xs @ ys)" .
  have "\<forall>cur. grouped cur (xs @ ys)"
    using assms by (auto simp: drain_calls_def intro: grouped_append)
  then show ?thesis
    using assms fifo unfolding drain_calls_def
    by (simp add: handled_registered_append)
qed

lemma drain_calls_delivery:
  assumes "eventQueue P = e # rest" and "list_all (is_delivery e) seg"
    and "handled_registered (apply_call (Shifted e) P) seg"
  shows "drain_calls P (Shifted e # seg)"
proof -
  note shape = delivery_no_drain [OF assms(2)]
  have "eventQueue (replay seg (apply_call (Shifted e) P)) = rest @ published seg"
    using shape assms(1) by (simp add: eventQueue_replay)
  then show ?thesis
    using assms shape delivery_grouped [OF assms(2)]
    by (simp add: drain_calls_def)
qed

lemma drain_calls_flag: "drain_calls P seg \<Longrightarrow> isProcessing (replay seg P) = isProcessing P"
  by (simp add: drain_calls_def isProcessing_replay)

lemma while_inside:
  assumes "while_loop H n w = Some r" and "isProcessing (service w)"
  shows "\<exists>seg. trace (world_of r) = trace w @ seg \<and>
           service (world_of r) = replay seg (service w) \<and>
           drain_calls (service w) seg \<and>
           (\<forall>w'. r = Returned w' \<longrightarrow> eventQueue (service w') = [])"
  using assms
proof (induction n arbitrary: w)
  case 0
  then show ?case by simp
next
  case (Suc n)
  show ?case
  proof (cases "eventQueue (service w)")
    case Nil
    with Suc.prems have "r = Returned w" by simp
    then have "trace (world_of r) = trace w @ [] \<and> service (world_of r) = replay [] (service w) \<and>
           drain_calls (service w) [] \<and> (\<forall>w'. r = Returned w' \<longrightarrow> eventQueue (service w') = [])"
      using Nil by (simp add: drain_calls_Nil)
    then show ?thesis by blast
  next
    case (Cons e rest)
    let ?w1 = "set_eventQueue rest (record_call (Shifted e) w)"
    have w1: "trace ?w1 = trace w @ [Shifted e]"
      "service ?w1 = apply_call (Shifted e) (service w)"
      "isProcessing (service ?w1)"
      using Cons Suc.prems(2) by (simp_all add: set_eventQueue_def record_call_def)
    have step: "\<exists>seg1 r1. trace (world_of r1) = trace w @ (Shifted e # seg1) \<and>
        service (world_of r1) = replay (Shifted e # seg1) (service w) \<and>
        list_all (is_delivery e) seg1 \<and>
        handled_registered (apply_call (Shifted e) (service w)) seg1 \<and>
        (case r1 of Returned w2 \<Rightarrow> while_loop H n w2 = Some r | Threw w2 \<Rightarrow> r = r1)"
    proof (cases "subscribers (service ?w1) (type e)")
      case None
      with Suc.prems Cons have "while_loop H n ?w1 = Some r" by (simp add: Let_def)
      then have "trace (world_of (Returned ?w1)) = trace w @ (Shifted e # []) \<and>
        service (world_of (Returned ?w1)) = replay (Shifted e # []) (service w) \<and>
        list_all (is_delivery e) [] \<and>
        handled_registered (apply_call (Shifted e) (service w)) [] \<and>
        (case Returned ?w1 of Returned w2 \<Rightarrow> while_loop H n w2 = Some r | Threw w2 \<Rightarrow> r = Returned ?w1)"
        using w1 by simp
      then show ?thesis by blast
    next
      case (Some eventSubscribers)
      show ?thesis
      proof (cases "forEach H n e 0 ?w1")
        case None
        with Suc.prems Cons Some show ?thesis by (simp add: Let_def)
      next
        case each: (Some r1)
        obtain seg1 where seg1: "trace (world_of r1) = trace ?w1 @ seg1"
          "list_all (is_delivery e) seg1" "service (world_of r1) = replay seg1 (service ?w1)"
          "handled_registered (service ?w1) seg1"
          using forEach_inside [OF each w1(3)] by blast
        have "case r1 of Returned w2 \<Rightarrow> while_loop H n w2 = Some r | Threw w2 \<Rightarrow> r = r1"
          using Suc.prems Cons Some each by (cases r1) (auto simp: Let_def)
        then have "trace (world_of r1) = trace w @ (Shifted e # seg1) \<and>
          service (world_of r1) = replay (Shifted e # seg1) (service w) \<and>
          list_all (is_delivery e) seg1 \<and>
          handled_registered (apply_call (Shifted e) (service w)) seg1 \<and>
          (case r1 of Returned w2 \<Rightarrow> while_loop H n w2 = Some r | Threw w2 \<Rightarrow> r = r1)"
          using seg1 w1 by simp
        then show ?thesis by blast
      qed
    qed
    then obtain seg1 r1 where seg1: "trace (world_of r1) = trace w @ (Shifted e # seg1)"
        "service (world_of r1) = replay (Shifted e # seg1) (service w)"
        "list_all (is_delivery e) seg1"
        "handled_registered (apply_call (Shifted e) (service w)) seg1"
        "case r1 of Returned w2 \<Rightarrow> while_loop H n w2 = Some r | Threw w2 \<Rightarrow> r = r1"
      by blast
    have first: "drain_calls (service w) (Shifted e # seg1)"
      using drain_calls_delivery [OF Cons seg1(3,4)] .
    show ?thesis
    proof (cases r1)
      case (Threw w2)
      with seg1(5) have "r = r1" by simp
      then have "trace (world_of r) = trace w @ (Shifted e # seg1) \<and>
           service (world_of r) = replay (Shifted e # seg1) (service w) \<and>
           drain_calls (service w) (Shifted e # seg1) \<and>
           (\<forall>w'. r = Returned w' \<longrightarrow> eventQueue (service w') = [])"
        using seg1(1,2) first Threw by simp
      then show ?thesis by blast
    next
      case (Returned w2)
      with seg1(5) have rest: "while_loop H n w2 = Some r" by simp
      have w2: "trace w2 = trace w @ (Shifted e # seg1)"
        "service w2 = replay (Shifted e # seg1) (service w)"
        using seg1(1,2) Returned by simp_all
      have "isProcessing (service w2)"
        using drain_calls_flag [OF first] w2(2) Suc.prems(2) by simp
      then obtain seg2 where seg2: "trace (world_of r) = trace w2 @ seg2"
        "service (world_of r) = replay seg2 (service w2)"
        "drain_calls (service w2) seg2"
        "\<forall>w'. r = Returned w' \<longrightarrow> eventQueue (service w') = []"
        using Suc.IH [OF rest] by blast
      have "drain_calls (service w) ((Shifted e # seg1) @ seg2)"
        using drain_calls_append [OF first] seg2(3) w2(2) by simp
      then have "trace (world_of r) = trace w @ ((Shifted e # seg1) @ seg2) \<and>
           service (world_of r) = replay ((Shifted e # seg1) @ seg2) (service w) \<and>
           drain_calls (service w) ((Shifted e # seg1) @ seg2) \<and>
           (\<forall>w'. r = Returned w' \<longrightarrow> eventQueue (service w') = [])"
        using seg2 w2 by (simp only: replay_append append_assoc)
      then show ?thesis by blast
    qed
  qed
qed


lemma returns_iff: "returns r Q \<longleftrightarrow> (\<exists>w. r = Some (Returned w) \<and> Q w)"
  by (cases "(r, Q)" rule: returns.cases) auto

lemma new_calls_append: "trace (world_of r) = trace w @ seg \<Longrightarrow> new_calls w r = seg"
  by (simp add: new_calls_def)















section \<open>Delivery order\<close>




section \<open>One drain at a time\<close>




section \<open>The dispatcher is idle after a publish that returns\<close>




section \<open>A handler that throws\<close>

text \<open>
  Claim C3, evaluated on the system with the extra subscription. The refill of 5 for
  machine 001 is handled by the refill subscriber, which publishes a stock-ok event;
  then the sale subscriber throws, and the exception leaves \<open>publish\<close> with the
  stock-ok event still queued. So far the claim holds. But \<open>isProcessing\<close> is still
  set, since only the normal exit of \<open>processEventQueue\<close> clears it: the next publish
  call, made from outside any handler, only enqueues its event and returns. Nothing is
  delivered, neither the stock-ok event nor the new sale (the stock stays at 15), and
  the same holds for every later publish: draining never resumes.
\<close>

theorem handler_exception_blocks_dispatcher:
  "throws (publish handlers 30 (MachineRefillEvent 5 ''001'') miswired) (\<lambda>w1.
     trace w1 =
       [Published (MachineRefillEvent 5 ''001''), DrainBegin,
        Shifted (MachineRefillEvent 5 ''001''),
        Handled refillSubscriber (MachineRefillEvent 5 ''001''),
        Published (StockLevelOkEvent ''001''),
        Handled saleSubscriber (MachineRefillEvent 5 ''001'')] \<and>
     eventQueue (service w1) = [StockLevelOkEvent ''001''] \<and>
     isProcessing (service w1) \<and>
     returns (publish handlers 30 (MachineSaleEvent 1 ''001'') w1) (\<lambda>w2.
       new_calls w1 (Returned w2) = [Published (MachineSaleEvent 1 ''001'')] \<and>
       eventQueue (service w2) = [StockLevelOkEvent ''001'', MachineSaleEvent 1 ''001''] \<and>
       isProcessing (service w2) \<and>
       map stockLevel (machines (heap w2)) = [15, 10, 10] \<and>
       console (heap w2) = [Refilled ''001'' 15, StockIsOk ''001'' 15]))"
  by code_simp


section \<open>The sale subscriber has no lower bound\<close>

lemma find_set_stockLevel:
  "find (\<lambda>x. Machine_id x = m) xs = Some machine \<Longrightarrow>
   find (\<lambda>x. Machine_id x = m) (set_stockLevel m v xs) = Some (machine\<lparr>stockLevel := v\<rparr>)"
  by (induction xs) (auto split: if_splits)

lemma find_Machine_id:
  "find (\<lambda>x. Machine_id x = m) xs = Some machine \<Longrightarrow> Machine_id machine = m"
  by (induction xs) (auto split: if_splits)

text \<open>
  Claim C9. When the sale subscriber handles (inside a drain, where every handler runs)
  a sale event whose quantity exceeds the current stock of the machine that \<open>find\<close>
  returns for the event's identifier, it returns normally, the machine's stock is the
  difference, which is negative, and a low-stock warning event for the machine has
  been published: it is the one call recorded and the new tail of the queue.
\<close>

theorem sale_below_zero:
  assumes "find (\<lambda>x. Machine_id x = m) (machines (heap w)) = Some machine"
    and "stockLevel machine < sold"
    and "isProcessing (service w)"
  shows "returns (run H (n + 5) (MachineSaleSubscriber_handle (MachineSaleEvent sold m)) w) (\<lambda>w'.
           find (\<lambda>x. Machine_id x = m) (machines (heap w')) =
             Some (machine\<lparr>stockLevel := stockLevel machine - sold\<rparr>) \<and>
           stockLevel machine - sold < 0 \<and>
           new_calls w (Returned w') = [Published (LowStockWarningEvent m)] \<and>
           eventQueue (service w') = eventQueue (service w) @ [LowStockWarningEvent m])"
proof -
  have fuel: "n + 5 = Suc (Suc (Suc (Suc (Suc n))))"
    by simp
  have m: "Machine_id machine = m"
    using assms(1) by (rule find_Machine_id)
  show ?thesis
    unfolding fuel MachineSaleSubscriber_handle_def
    using assms m
    by (simp add: Let_def find_set_stockLevel log_def push_def record_call_def new_calls_def)
qed

theorem sale_below_zero_witness:
  "find (\<lambda>x. Machine_id x = ''001'') (machines (heap (set_isProcessing True normalCase))) =
     Some (new_Machine ''001'') \<and>
   stockLevel (new_Machine ''001'') < 12 \<and>
   isProcessing (service (set_isProcessing True normalCase)) \<and>
   returns (run handlers (0 + 5) (MachineSaleSubscriber_handle (MachineSaleEvent 12 ''001''))
        (set_isProcessing True normalCase)) (\<lambda>w'.
           find (\<lambda>x. Machine_id x = ''001'') (machines (heap w')) =
             Some ((new_Machine ''001'')\<lparr>stockLevel := stockLevel (new_Machine ''001'') - 12\<rparr>) \<and>
           stockLevel (new_Machine ''001'') - 12 < 0 \<and>
           new_calls (set_isProcessing True normalCase) (Returned w') =
             [Published (LowStockWarningEvent ''001'')] \<and>
           eventQueue (service w') =
             eventQueue (service (set_isProcessing True normalCase)) @ [LowStockWarningEvent ''001''])"
proof -
  let ?w = "set_isProcessing True normalCase"
  have found: "find (\<lambda>x. Machine_id x = ''001'') (machines (heap ?w)) = Some (new_Machine ''001'')"
    by (simp add: set_isProcessing_def normalCase_def new_Machine_def)
  have less: "stockLevel (new_Machine ''001'') < 12"
    by (simp add: new_Machine_def)
  have busy: "isProcessing (service ?w)"
    by (simp add: set_isProcessing_def)
  from sale_below_zero [OF found less busy, of handlers 0] found less busy show ?thesis
    by blast
qed


section \<open>The stock-warning subscriber\<close>

lemma console_handle:
  "count_list (console (StockWarningSubscriber_handle e h)) (LowStockWarning m) =
     count_list (console h) (LowStockWarning m) +
       (if e = LowStockWarningEvent m \<and> \<not> warned h m then 1 else 0)"
  "count_list (console (StockWarningSubscriber_handle e h)) (StockLevelOK m) =
     count_list (console h) (StockLevelOK m) +
       (if e = StockLevelOkEvent m \<and> warned h m then 1 else 0)"
  by (cases e; simp add: log_def)+

lemma warned_handle:
  "warned (StockWarningSubscriber_handle e h) m =
     (if e = LowStockWarningEvent m then True
      else if e = StockLevelOkEvent m then False else warned h m)"
  by (cases e) (auto simp: log_def warned_def)

lemma warnings_in_run:
  "StockLevelOkEvent m \<notin> set evs \<Longrightarrow>
   count_list (console (fold StockWarningSubscriber_handle evs h)) (LowStockWarning m) =
     count_list (console h) (LowStockWarning m) +
       (if \<not> warned h m \<and> LowStockWarningEvent m \<in> set evs then 1 else 0)"
proof (induction evs arbitrary: h)
  case Nil
  then show ?case by simp
next
  case (Cons e evs)
  then show ?case
    by (auto simp: console_handle warned_handle)
qed

lemma clearings_in_run:
  "LowStockWarningEvent m \<notin> set evs \<Longrightarrow>
   count_list (console (fold StockWarningSubscriber_handle evs h)) (StockLevelOK m) =
     count_list (console h) (StockLevelOK m) +
       (if warned h m \<and> StockLevelOkEvent m \<in> set evs then 1 else 0)"
proof (induction evs arbitrary: h)
  case Nil
  then show ?case by simp
next
  case (Cons e evs)
  then show ?case
    by (auto simp: console_handle warned_handle)
qed

text \<open>
  Claim C7. Let any list of events be delivered to the stock-warning subscriber, from any
  state. If the list holds no stock-ok event for machine \<open>m\<close> (a run of low-stock events
  for \<open>m\<close>, with events of other machines and other kinds in between), the number of
  warning lines for \<open>m\<close> on the console grows by one when \<open>m\<close> was not warned and a
  low-stock event for \<open>m\<close> is in the list, and by none otherwise: at most one report per
  run. The same holds for the cleared lines in a list with no low-stock event for \<open>m\<close>.
  The self-transitions change nothing: a low-stock event for a warned machine and a
  stock-ok event for a machine that is not warned leave the heap as it is.
\<close>

theorem tracker_reports_once_per_run:
  "(StockLevelOkEvent m \<notin> set evs \<longrightarrow>
      count_list (console (fold StockWarningSubscriber_handle evs h)) (LowStockWarning m) =
        count_list (console h) (LowStockWarning m) +
          (if \<not> warned h m \<and> LowStockWarningEvent m \<in> set evs then 1 else 0)) \<and>
   (LowStockWarningEvent m \<notin> set evs \<longrightarrow>
      count_list (console (fold StockWarningSubscriber_handle evs h)) (StockLevelOK m) =
        count_list (console h) (StockLevelOK m) +
          (if warned h m \<and> StockLevelOkEvent m \<in> set evs then 1 else 0)) \<and>
   (warned h m \<longrightarrow> StockWarningSubscriber_handle (LowStockWarningEvent m) h = h) \<and>
   (\<not> warned h m \<longrightarrow> StockWarningSubscriber_handle (StockLevelOkEvent m) h = h)"
  by (simp add: warnings_in_run clearings_in_run)

theorem tracker_reports_once_per_run_witness:
  "StockLevelOkEvent ''001'' \<notin>
     set [LowStockWarningEvent ''001'', LowStockWarningEvent ''001'', MachineSaleEvent 1 ''001'',
          LowStockWarningEvent ''002'', LowStockWarningEvent ''001''] \<and>
   count_list (console (fold StockWarningSubscriber_handle
       [LowStockWarningEvent ''001'', LowStockWarningEvent ''001'', MachineSaleEvent 1 ''001'',
        LowStockWarningEvent ''002'', LowStockWarningEvent ''001''] (heap normalCase)))
     (LowStockWarning ''001'') = count_list (console (heap normalCase)) (LowStockWarning ''001'') + 1 \<and>
   \<not> warned (heap normalCase) ''001'' \<and>
   StockWarningSubscriber_handle (StockLevelOkEvent ''001'') (heap normalCase) = heap normalCase \<and>
   LowStockWarningEvent ''001'' \<notin>
     set [StockLevelOkEvent ''001'', StockLevelOkEvent ''002'', StockLevelOkEvent ''001''] \<and>
   count_list (console (fold StockWarningSubscriber_handle
       [StockLevelOkEvent ''001'', StockLevelOkEvent ''002'', StockLevelOkEvent ''001'']
       (StockWarningSubscriber_handle (LowStockWarningEvent ''001'') (heap normalCase))))
     (StockLevelOK ''001'') =
     count_list (console (StockWarningSubscriber_handle (LowStockWarningEvent ''001'') (heap normalCase)))
       (StockLevelOK ''001'') + 1 \<and>
   warned (StockWarningSubscriber_handle (LowStockWarningEvent ''001'') (heap normalCase)) ''001'' \<and>
   StockWarningSubscriber_handle (LowStockWarningEvent ''001'')
       (StockWarningSubscriber_handle (LowStockWarningEvent ''001'') (heap normalCase)) =
     StockWarningSubscriber_handle (LowStockWarningEvent ''001'') (heap normalCase)"
  using tracker_reports_once_per_run [of "''001''"
      "[LowStockWarningEvent ''001'', LowStockWarningEvent ''001'', MachineSaleEvent 1 ''001'',
        LowStockWarningEvent ''002'', LowStockWarningEvent ''001'']" "heap normalCase"]
    tracker_reports_once_per_run [of "''001''"
      "[StockLevelOkEvent ''001'', StockLevelOkEvent ''002'', StockLevelOkEvent ''001'']"
      "StockWarningSubscriber_handle (LowStockWarningEvent ''001'') (heap normalCase)"]
  by (simp add: warned_def normalCase_def log_def)


section \<open>One delivery: walking the live set\<close>

lemma registered_entries: "registered P t = members (entries P t)"
  by (simp add: registered_def entries_def split: option.splits)

lemma entries_subscribe:
  "entries (subscribe t s P) t' = (if t' = t then Set_add (entries P t) s else entries P t')"
  by (simp add: entries_def subscribe_def split: option.splits)

lemma entries_unsubscribe:
  "entries (unsubscribe t s P) t' = (if t' = t then Set_delete (entries P t) s else entries P t')"
  by (simp add: entries_def unsubscribe_def Set_delete_def split: option.splits)

lemma entries_eventQueue [simp]: "entries (P\<lparr>eventQueue := q\<rparr>) t = entries P t"
  by (simp add: entries_def)

lemma entries_isProcessing [simp]: "entries (P\<lparr>isProcessing := b\<rparr>) t = entries P t"
  by (simp add: entries_def)

lemma evolves_refl: "evolves S S"
  by (simp add: evolves_def)

lemma evolves_trans: "evolves S T \<Longrightarrow> evolves T U \<Longrightarrow> evolves S U"
  unfolding evolves_def
  by (metis (no_types, lifting) le_trans less_le_trans)

lemma evolves_Set_add: "evolves S (Set_add S x)"
  by (simp add: evolves_def Set_add_def nth_append)

lemma evolves_Set_delete: "evolves S (Set_delete S x)"
  by (simp add: evolves_def Set_delete_def)

lemma evolves_apply_call: "evolves (entries P t) (entries (apply_call c P) t)"
  by (cases c)
    (simp_all add: entries_subscribe entries_unsubscribe evolves_refl evolves_Set_add
      evolves_Set_delete)

lemma evolves_replay: "evolves (entries P t) (entries (replay seg P) t)"
proof (induction seg arbitrary: P)
  case Nil
  then show ?case by (simp add: evolves_refl)
next
  case (Cons c seg)
  have "evolves (entries P t) (entries (apply_call c P) t)"
    by (rule evolves_apply_call)
  then show ?case
    using Cons.IH [of "apply_call c P"] by (auto intro: evolves_trans)
qed



lemma forEach_step:
  assumes "forEach H (Suc n) e i w = Some (Returned w')" and "isProcessing (service w)"
  shows "(length (entries (service w) (type e)) \<le> i \<and> w' = w) \<or>
         (i < length (entries (service w) (type e)) \<and> entries (service w) (type e) ! i = None \<and>
            forEach H n e (i + 1) w = Some (Returned w')) \<or>
         (\<exists>s0 w1 seg1. i < length (entries (service w) (type e)) \<and>
            entries (service w) (type e) ! i = Some s0 \<and> list_all is_api seg1 \<and>
            trace w1 = trace w @ Handled s0 e # seg1 \<and>
            service w1 = replay seg1 (service w) \<and> isProcessing (service w1) \<and>
            forEach H n e (i + 1) w1 = Some (Returned w'))"
proof (cases "subscribers (service w) (type e)")
  case None
  with assms show ?thesis by (simp add: entries_def)
next
  case (Some S)
  then have S: "entries (service w) (type e) = S"
    by (simp add: entries_def)
  show ?thesis
  proof (cases "i < length S")
    case False
    with assms Some S show ?thesis by simp
  next
    case inside: True
    show ?thesis
    proof (cases "S ! i")
      case None
      with assms Some S inside show ?thesis by simp
    next
      case entry: (Some s0)
      let ?w0 = "record_call (Handled s0 e) w"
      have flag0: "isProcessing (service ?w0)"
        using assms(2) by (simp add: record_call_def)
      from assms(1) Some inside entry
      obtain w1 where run: "run H n (H s0 e) ?w0 = Some (Returned w1)"
        and rest: "forEach H n e (i + 1) w1 = Some (Returned w')"
        by (auto split: option.splits outcome.splits)
      obtain seg1 where seg1: "trace w1 = trace ?w0 @ seg1" "list_all is_api seg1"
        "service w1 = replay seg1 (service ?w0)"
        using run_inside [OF run flag0] by auto
      have "isProcessing (service w1)"
        using seg1(2,3) flag0 delivery_no_drain [OF api_is_delivery [OF seg1(2), of e]]
        by (simp add: isProcessing_replay)
      then have "i < length (entries (service w) (type e)) \<and>
            entries (service w) (type e) ! i = Some s0 \<and> list_all is_api seg1 \<and>
            trace w1 = trace w @ Handled s0 e # seg1 \<and>
            service w1 = replay seg1 (service w) \<and> isProcessing (service w1) \<and>
            forEach H n e (i + 1) w1 = Some (Returned w')"
        using S inside entry seg1 rest by (simp add: record_call_def)
      then show ?thesis by blast
    qed
  qed
qed

lemma forEach_calls:
  assumes "forEach H n e i w = Some r" and "isProcessing (service w)"
  shows "trace (world_of r) = trace w @ new_calls w r"
    and "list_all (is_delivery e) (new_calls w r)"
    and "service (world_of r) = replay (new_calls w r) (service w)"
    and "handled_registered (service w) (new_calls w r)"
proof -
  obtain seg where seg: "trace (world_of r) = trace w @ seg" "list_all (is_delivery e) seg"
    "service (world_of r) = replay seg (service w)" "handled_registered (service w) seg"
    using forEach_inside [OF assms] by blast
  have "new_calls w r = seg"
    using seg(1) by (rule new_calls_append)
  with seg show "trace (world_of r) = trace w @ new_calls w r"
    and "list_all (is_delivery e) (new_calls w r)"
    and "service (world_of r) = replay (new_calls w r) (service w)"
    and "handled_registered (service w) (new_calls w r)"
    by simp_all
qed

lemma forEach_reaches:
  assumes "forEach H n e i w = Some (Returned w')" and "isProcessing (service w)"
    and "i \<le> j" and "j < length (entries (service w') (type e))"
    and "entries (service w') (type e) ! j = Some s"
  shows "Handled s e \<in> set (new_calls w (Returned w'))"
  using assms
proof (induction n arbitrary: i w)
  case 0
  then show ?case by simp
next
  case (Suc n)
  let ?S = "entries (service w) (type e)"
  let ?S' = "entries (service w') (type e)"
  note calls = forEach_calls [OF Suc.prems(1,2)]
  have ev: "evolves ?S ?S'"
    using calls(3) evolves_replay [of "service w" "type e" "new_calls w (Returned w')"] by simp
  consider (past) "length ?S \<le> i" "w' = w"
    | (empty) "i < length ?S" "?S ! i = None" "forEach H n e (i + 1) w = Some (Returned w')"
    | (call) s0 w1 seg1 where "i < length ?S" "?S ! i = Some s0" "list_all is_api seg1"
        "trace w1 = trace w @ Handled s0 e # seg1" "service w1 = replay seg1 (service w)"
        "isProcessing (service w1)" "forEach H n e (i + 1) w1 = Some (Returned w')"
    using forEach_step [OF Suc.prems(1,2)] by (elim disjE exE conjE) auto
  then show ?case
  proof cases
    case past
    with Suc.prems show ?thesis by simp
  next
    case empty
    have "j \<noteq> i"
      using ev empty(1,2) Suc.prems(5) by (auto simp: evolves_def)
    with Suc.prems(3) have "i + 1 \<le> j" by simp
    then show ?thesis
      using Suc.IH [OF empty(3) Suc.prems(2) _ Suc.prems(4,5)] by simp
  next
    case call
    note rest = forEach_calls [OF call(7,6)]
    have new: "new_calls w (Returned w') = Handled s0 e # seg1 @ new_calls w1 (Returned w')"
      using rest(1) call(4) by (intro new_calls_append) simp
    show ?thesis
    proof (cases "j = i")
      case True
      then have "s = s0"
        using ev call(1,2) Suc.prems(5) by (auto simp: evolves_def)
      then show ?thesis using new by simp
    next
      case False
      with Suc.prems(3) have "i + 1 \<le> j" by simp
      then have "Handled s e \<in> set (new_calls w1 (Returned w'))"
        using Suc.IH [OF call(7,6) _ Suc.prems(4,5)] by simp
      then show ?thesis using new by simp
    qed
  qed
qed




lemma recipients_append: "recipients (xs @ ys) = recipients xs @ recipients ys"
  by (induction xs rule: recipients.induct) auto

lemma recipients_api: "list_all is_api seg \<Longrightarrow> recipients seg = []"
  by (induction seg rule: recipients.induct) auto

lemma untouched_apply_call: "\<not> touches t c \<Longrightarrow> entries (apply_call c P) t = entries P t"
  by (cases c) (auto simp: entries_subscribe entries_unsubscribe)

lemma untouched_replay: "\<forall>c\<in>set seg. \<not> touches t c \<Longrightarrow> entries (replay seg P) t = entries P t"
  by (induction seg arbitrary: P) (auto simp: untouched_apply_call)

lemma members_drop:
  "i < length S \<Longrightarrow>
   members (drop i S) = (case S ! i of None \<Rightarrow> [] | Some x \<Rightarrow> [x]) @ members (drop (i + 1) S)"
  by (simp add: Cons_nth_drop_Suc [symmetric] split: option.splits)

lemma forEach_untouched:
  assumes "forEach H n e i w = Some (Returned w')" and "isProcessing (service w)"
    and "\<forall>c\<in>set (new_calls w (Returned w')). \<not> touches (type e) c"
  shows "recipients (new_calls w (Returned w')) = members (drop i (entries (service w) (type e)))"
  using assms
proof (induction n arbitrary: i w)
  case 0
  then show ?case by simp
next
  case (Suc n)
  let ?S = "entries (service w) (type e)"
  consider (past) "length ?S \<le> i" "w' = w"
    | (empty) "i < length ?S" "?S ! i = None" "forEach H n e (i + 1) w = Some (Returned w')"
    | (call) s0 w1 seg1 where "i < length ?S" "?S ! i = Some s0" "list_all is_api seg1"
        "trace w1 = trace w @ Handled s0 e # seg1" "service w1 = replay seg1 (service w)"
        "isProcessing (service w1)" "forEach H n e (i + 1) w1 = Some (Returned w')"
    using forEach_step [OF Suc.prems(1,2)] by (elim disjE exE conjE) auto
  then show ?case
  proof cases
    case past
    then show ?thesis by (simp add: new_calls_def)
  next
    case empty
    then show ?thesis
      using Suc.IH [OF empty(3) Suc.prems(2,3)] by (simp add: members_drop)
  next
    case call
    note rest = forEach_calls [OF call(7,6)]
    have new: "new_calls w (Returned w') = Handled s0 e # seg1 @ new_calls w1 (Returned w')"
      using rest(1) call(4) by (intro new_calls_append) simp
    have "entries (service w1) (type e) = ?S"
      using Suc.prems(3) new call(5) by (simp add: untouched_replay)
    moreover have "recipients (new_calls w1 (Returned w')) =
        members (drop (i + 1) (entries (service w1) (type e)))"
      using Suc.prems(3) new by (intro Suc.IH [OF call(7,6)]) simp
    ultimately show ?thesis
      using new call(1,2) by (simp add: recipients_append recipients_api [OF call(3)] members_drop)
  qed
qed

lemma members_append: "members (S @ T) = members S @ members T"
  by (induction S rule: members.induct) auto

lemma members_Set_add:
  "members (Set_add S x) = (if x \<in> set (members S) then members S else members S @ [x])"
  by (simp add: Set_add_def members_append set_members)

lemma members_Set_delete: "members (Set_delete S x) = removeAll x (members S)"
  by (induction S rule: members.induct) (auto simp: Set_delete_def)

lemma registered_subscribe:
  "registered (subscribe t s P) t' =
     (if t' = t then (if s \<in> set (registered P t) then registered P t else registered P t @ [s])
      else registered P t')"
  by (simp add: registered_entries entries_subscribe members_Set_add)

lemma registered_unsubscribe:
  "registered (unsubscribe t s P) t' =
     (if t' = t then removeAll s (registered P t) else registered P t')"
  by (simp add: registered_entries entries_unsubscribe members_Set_delete)

lemma registered_eventQueue [simp]: "registered (P\<lparr>eventQueue := q\<rparr>) t = registered P t"
  by (simp add: registered_def)

lemma registered_isProcessing [simp]: "registered (P\<lparr>isProcessing := b\<rparr>) t = registered P t"
  by (simp add: registered_def)

lemma registered_apply_call:
  "c \<noteq> Subscribed t s \<Longrightarrow> s \<notin> set (registered P t) \<Longrightarrow> s \<notin> set (registered (apply_call c P) t)"
  by (cases c) (auto simp: registered_subscribe registered_unsubscribe)

lemma not_registered_not_handled:
  assumes "handled_registered P seg" and "s \<notin> set (registered P (type e))"
    and "Subscribed (type e) s \<notin> set seg"
  shows "Handled s e \<notin> set seg"
  using assms
proof (induction seg arbitrary: P)
  case Nil
  then show ?case by simp
next
  case (Cons c seg)
  show ?case
  proof (cases "\<exists>s' e'. c = Handled s' e'")
    case True
    then obtain s' e' where c: "c = Handled s' e'" by blast
    have "Handled s e \<notin> set seg"
      using Cons.prems c by (intro Cons.IH [of P]) auto
    moreover have "c \<noteq> Handled s e"
      using Cons.prems c by auto
    ultimately show ?thesis by simp
  next
    case False
    then have step: "handled_registered P (c # seg) = handled_registered (apply_call c P) seg"
      by (cases c) auto
    have "s \<notin> set (registered (apply_call c P) (type e))"
      using Cons.prems by (intro registered_apply_call) auto
    then have "Handled s e \<notin> set seg"
      using Cons.prems step by (intro Cons.IH [of "apply_call c P"]) auto
    then show ?thesis using False by auto
  qed
qed






text \<open>
  Claim C2 as stated fails. Subscribers 0 and 1 are registered for sales when a sale is
  published. While it handles the sale, 0 unsubscribes 1 and subscribes 2. The sale is
  then delivered to 2, which was not registered when the delivery began, and not to 1,
  which was: \<open>forEach\<close> walks the \<open>Set\<close> itself, no copy is taken.
\<close>

theorem snapshot_counterexample:
  "registered (service meddled) ''sale'' = [0, 1] \<and>
   map_option trace (returned (publish meddler 10 (MachineSaleEvent 1 ''001'') meddled)) =
     Some [Published (MachineSaleEvent 1 ''001''), DrainBegin, Shifted (MachineSaleEvent 1 ''001''),
           Handled 0 (MachineSaleEvent 1 ''001''),
           Unsubscribed ''sale'' 1, Subscribed ''sale'' 2,
           Handled 2 (MachineSaleEvent 1 ''001''), DrainEnd] \<and>
   map_option recipients
     (map_option trace (returned (publish meddler 10 (MachineSaleEvent 1 ''001'') meddled))) =
     Some [0, 2]"
  by code_simp

text \<open>
  Claim C2, amended. During the delivery of an event \<open>E\<close> (inside a drain) the dispatcher
  walks the live subscriber set of the kind of \<open>E\<close>:
  \<^item> every \<open>handle\<close> invocation goes to a subscriber that is registered for the kind at
    that moment, all earlier subscribe and unsubscribe calls applied;
  \<^item> so a subscriber that a handler unsubscribes from the kind during the delivery, and
    that is not subscribed again, is not invoked with \<open>E\<close> from then on (it has received
    \<open>E\<close> only if its turn came before);
  \<^item> when the delivery returns normally, every subscriber registered for the kind at
    that point has been invoked with \<open>E\<close> during the delivery, also those that a handler
    subscribed during it;
  \<^item> when no call during the delivery subscribes to or unsubscribes from the kind,
    the subscribers invoked are those registered when the delivery began, each once,
    in insertion order.
  Subscribe and unsubscribe calls made during the delivery affect later deliveries as
  well: those walk the same set.
\<close>

theorem delivery_walks_live_set:
  assumes "forEach H n e 0 w = Some r" and "isProcessing (service w)"
  shows "handled_registered (service w) (new_calls w r) \<and>
    (\<forall>pre post s. new_calls w r = pre @ Unsubscribed (type e) s # post \<longrightarrow>
       Subscribed (type e) s \<notin> set post \<longrightarrow> Handled s e \<notin> set post) \<and>
    (\<forall>w'. r = Returned w' \<longrightarrow>
       (\<forall>s\<in>set (registered (service w') (type e)). Handled s e \<in> set (new_calls w r))) \<and>
    (\<forall>w'. r = Returned w' \<longrightarrow> (\<forall>c\<in>set (new_calls w r). \<not> touches (type e) c) \<longrightarrow>
       recipients (new_calls w r) = registered (service w) (type e))"
proof (intro conjI allI impI ballI)
  show live: "handled_registered (service w) (new_calls w r)"
    using forEach_calls(4) [OF assms] .
  show "Handled s e \<notin> set post"
    if split: "new_calls w r = pre @ Unsubscribed (type e) s # post"
      and quiet: "Subscribed (type e) s \<notin> set post" for pre post s
  proof -
    let ?P = "replay (pre @ [Unsubscribed (type e) s]) (service w)"
    have "handled_registered (service w) ((pre @ [Unsubscribed (type e) s]) @ post)"
      using live split by simp
    then have "handled_registered ?P post"
      unfolding handled_registered_append by blast
    moreover have "s \<notin> set (registered ?P (type e))"
      by (simp add: registered_unsubscribe)
    ultimately show ?thesis
      using quiet by (rule not_registered_not_handled)
  qed
  show "Handled s e \<in> set (new_calls w r)"
    if r: "r = Returned w'" and s: "s \<in> set (registered (service w') (type e))" for w' s
  proof -
    have "Some s \<in> set (entries (service w') (type e))"
      using s by (simp add: registered_entries set_members)
    then obtain j where "j < length (entries (service w') (type e))"
      "entries (service w') (type e) ! j = Some s"
      by (auto simp: in_set_conv_nth)
    then show ?thesis
      using forEach_reaches [of H n e 0 w w' j s] assms r by simp
  qed
  show "recipients (new_calls w r) = registered (service w) (type e)"
    if "r = Returned w'" and "\<forall>c\<in>set (new_calls w r). \<not> touches (type e) c" for w'
    using forEach_untouched [of H n e 0 w w'] assms that by (simp add: registered_entries)
qed

theorem delivery_walks_live_set_witness:
  "isProcessing (service (set_isProcessing True meddled)) \<and>
   returns (forEach meddler 10 (MachineSaleEvent 1 ''001'') 0 (set_isProcessing True meddled)) (\<lambda>w'.
     new_calls (set_isProcessing True meddled) (Returned w') =
       [Handled 0 (MachineSaleEvent 1 ''001'')] @ Unsubscribed ''sale'' 1 #
       [Subscribed ''sale'' 2, Handled 2 (MachineSaleEvent 1 ''001'')] \<and>
     handled_registered (service (set_isProcessing True meddled))
       (new_calls (set_isProcessing True meddled) (Returned w')) \<and>
     Subscribed ''sale'' 1 \<notin> set [Subscribed ''sale'' 2, Handled 2 (MachineSaleEvent 1 ''001'')] \<and>
     Handled 1 (MachineSaleEvent 1 ''001'') \<notin>
       set [Subscribed ''sale'' 2, Handled 2 (MachineSaleEvent 1 ''001'')] \<and>
     registered (service w') ''sale'' = [0, 2] \<and>
     Handled 0 (MachineSaleEvent 1 ''001'') \<in> set (new_calls (set_isProcessing True meddled) (Returned w')) \<and>
     Handled 2 (MachineSaleEvent 1 ''001'') \<in> set (new_calls (set_isProcessing True meddled) (Returned w'))) \<and>
   isProcessing (service (set_isProcessing True normalCase)) \<and>
   returns (forEach handlers 10 (LowStockWarningEvent ''001'') 0 (set_isProcessing True normalCase)) (\<lambda>w'.
     new_calls (set_isProcessing True normalCase) (Returned w') =
       [Handled stockWarningSubscriber (LowStockWarningEvent ''001'')] \<and>
     \<not> touches ''lowStockWarning'' (Handled stockWarningSubscriber (LowStockWarningEvent ''001'')) \<and>
     recipients (new_calls (set_isProcessing True normalCase) (Returned w')) =
       registered (service (set_isProcessing True normalCase)) ''lowStockWarning'')"
proof -
  let ?E = "MachineSaleEvent 1 ''001''"
  let ?w = "set_isProcessing True meddled"
  let ?L = "LowStockWarningEvent ''001''"
  let ?v = "set_isProcessing True normalCase"
  have flag: "isProcessing (service ?w)" "isProcessing (service ?v)"
    by (simp_all add: set_isProcessing_def)
  have "returns (forEach meddler 10 ?E 0 ?w) (\<lambda>w'.
      new_calls ?w (Returned w') =
        [Handled 0 ?E] @ Unsubscribed ''sale'' 1 # [Subscribed ''sale'' 2, Handled 2 ?E] \<and>
      registered (service w') ''sale'' = [0, 2])"
    by code_simp
  then obtain w' where w': "forEach meddler 10 ?E 0 ?w = Some (Returned w')"
    and calls: "new_calls ?w (Returned w') =
        [Handled 0 ?E] @ Unsubscribed ''sale'' 1 # [Subscribed ''sale'' 2, Handled 2 ?E]"
    and reg: "registered (service w') ''sale'' = [0, 2]"
    by (auto simp: returns_iff)
  note live = delivery_walks_live_set [OF w' flag(1)]
  have first: "new_calls ?w (Returned w') =
        [Handled 0 ?E] @ Unsubscribed ''sale'' 1 # [Subscribed ''sale'' 2, Handled 2 ?E] \<and>
     handled_registered (service ?w) (new_calls ?w (Returned w')) \<and>
     Subscribed ''sale'' 1 \<notin> set [Subscribed ''sale'' 2, Handled 2 ?E] \<and>
     Handled 1 ?E \<notin> set [Subscribed ''sale'' 2, Handled 2 ?E] \<and>
     registered (service w') ''sale'' = [0, 2] \<and>
     Handled 0 ?E \<in> set (new_calls ?w (Returned w')) \<and>
     Handled 2 ?E \<in> set (new_calls ?w (Returned w'))"
    using live calls reg by simp
  have "returns (forEach handlers 10 ?L 0 ?v) (\<lambda>v'.
      new_calls ?v (Returned v') = [Handled stockWarningSubscriber ?L])"
    by code_simp
  then obtain v' where v': "forEach handlers 10 ?L 0 ?v = Some (Returned v')"
    and quiet: "new_calls ?v (Returned v') = [Handled stockWarningSubscriber ?L]"
    by (auto simp: returns_iff)
  note still = delivery_walks_live_set [OF v' flag(2)]
  have second: "new_calls ?v (Returned v') = [Handled stockWarningSubscriber ?L] \<and>
     \<not> touches ''lowStockWarning'' (Handled stockWarningSubscriber ?L) \<and>
     recipients (new_calls ?v (Returned v')) = registered (service ?v) ''lowStockWarning''"
    using still quiet by simp
  show ?thesis
    unfolding w' v' returns.simps using flag first second by blast
qed


section \<open>Subscribing twice\<close>




section \<open>More fuel changes nothing\<close>

lemma publish_inside_Suc:
  "isProcessing (service w) \<Longrightarrow>
   publish H (Suc n) e w = Some (Returned (push e (record_call (Published e) w)))"
  by (simp add: push_def record_call_def)

lemma run_flag:
  assumes "run H n p w = Some r" and "isProcessing (service w)"
  shows "isProcessing (service (world_of r))"
proof -
  obtain seg where seg: "list_all is_api seg" "service (world_of r) = replay seg (service w)"
    using run_inside [OF assms] by blast
  show ?thesis
    using seg(2) assms(2) delivery_no_drain [OF api_is_delivery [OF seg(1), of undefined]]
    by (simp add: isProcessing_replay)
qed

lemma forEach_flag:
  assumes "forEach H n e i w = Some r" and "isProcessing (service w)"
  shows "isProcessing (service (world_of r))"
  using forEach_calls(2,3) [OF assms] assms(2) delivery_no_drain [of e "new_calls w r"]
  by (simp add: isProcessing_replay)

lemma run_mono:
  assumes "run H n p w = Some r" and "isProcessing (service w)" and "n \<le> m"
  shows "run H m p w = Some r"
  using assms
proof (induction n arbitrary: p w m)
  case 0
  then show ?case by simp
next
  case (Suc n)
  then obtain m' where m: "m = Suc m'" "n \<le> m'"
    by (cases m) auto
  show ?case
  proof (cases p)
    case (Publish e q)
    let ?w1 = "push e (record_call (Published e) w)"
    from Suc.prems(1) Publish obtain n' where n: "n = Suc n'"
      by (cases n) auto
    then obtain m'' where m'': "m' = Suc m''"
      using m(2) by (cases m') auto
    have "run H n q ?w1 = Some r"
      using Suc.prems(1,2) Publish n by (simp add: push_def record_call_def)
    moreover have "isProcessing (service ?w1)"
      using Suc.prems(2) by (simp add: push_def record_call_def)
    ultimately have "run H m' q ?w1 = Some r"
      using m(2) by (rule Suc.IH)
    then show ?thesis
      using Publish m m'' Suc.prems(2) by (simp add: push_def record_call_def)
  next
    case (Subscribe t s q)
    then show ?thesis
      using Suc.prems m Suc.IH [of q _ m'] by (simp add: record_call_def)
  next
    case (Unsubscribe t s q)
    then show ?thesis
      using Suc.prems m Suc.IH [of q _ m'] by (simp add: record_call_def)
  next
    case (Get f)
    then show ?thesis
      using Suc.prems m Suc.IH [of "f (heap w)" w m'] by simp
  next
    case (Put h q)
    then show ?thesis
      using Suc.prems m Suc.IH [of q _ m'] by simp
  qed (use Suc.prems m in auto)
qed

lemma forEach_mono:
  assumes "forEach H n e i w = Some r" and "isProcessing (service w)" and "n \<le> m"
  shows "forEach H m e i w = Some r"
  using assms
proof (induction n arbitrary: i w m)
  case 0
  then show ?case by simp
next
  case (Suc n)
  then obtain m' where m: "m = Suc m'" "n \<le> m'"
    by (cases m) auto
  show ?case
  proof (cases "subscribers (service w) (type e)")
    case None
    with Suc.prems m show ?thesis by simp
  next
    case (Some S)
    show ?thesis
    proof (cases "i < length S")
      case False
      with Suc.prems m Some show ?thesis by simp
    next
      case inside: True
      show ?thesis
      proof (cases "S ! i")
        case None
        with Suc.prems Some inside have "forEach H n e (i + 1) w = Some r" by simp
        then have "forEach H m' e (i + 1) w = Some r"
          using Suc.prems(2) m(2) by (rule Suc.IH)
        then show ?thesis using Some inside None m by simp
      next
        case entry: (Some s)
        let ?w0 = "record_call (Handled s e) w"
        have flag0: "isProcessing (service ?w0)"
          using Suc.prems(2) by (simp add: record_call_def)
        from Suc.prems(1) Some inside entry
        obtain r1 where run: "run H n (H s e) ?w0 = Some r1"
          by (auto split: option.splits)
        have run': "run H m' (H s e) ?w0 = Some r1"
          using run flag0 m(2) by (rule run_mono)
        show ?thesis
        proof (cases r1)
          case (Threw w1)
          with Suc.prems(1) Some inside entry run run' m show ?thesis by auto
        next
          case (Returned w1)
          with Suc.prems(1) Some inside entry run
          have "forEach H n e (i + 1) w1 = Some r" by simp
          moreover have "isProcessing (service w1)"
            using run_flag [OF run flag0] Returned by simp
          ultimately have "forEach H m' e (i + 1) w1 = Some r"
            using m(2) by (rule Suc.IH)
          then show ?thesis
            using Some inside entry run' Returned m by simp
        qed
      qed
    qed
  qed
qed

lemma while_flag:
  assumes "while_loop H n w = Some r" and "isProcessing (service w)"
  shows "isProcessing (service (world_of r))"
proof -
  obtain seg where "service (world_of r) = replay seg (service w)" "drain_calls (service w) seg"
    using while_inside [OF assms] by blast
  then show ?thesis
    using drain_calls_flag [of "service w" seg] assms(2) by simp
qed

lemma while_mono:
  assumes "while_loop H n w = Some r" and "isProcessing (service w)" and "n \<le> m"
  shows "while_loop H m w = Some r"
  using assms
proof (induction n arbitrary: w m)
  case 0
  then show ?case by simp
next
  case (Suc n)
  then obtain m' where m: "m = Suc m'" "n \<le> m'"
    by (cases m) auto
  show ?case
  proof (cases "eventQueue (service w)")
    case Nil
    with Suc.prems m show ?thesis by simp
  next
    case (Cons e rest)
    let ?w1 = "set_eventQueue rest (record_call (Shifted e) w)"
    have flag1: "isProcessing (service ?w1)"
      using Suc.prems(2) by (simp add: set_eventQueue_def record_call_def)
    show ?thesis
    proof (cases "subscribers (service ?w1) (type e)")
      case None
      with Suc.prems(1) Cons have "while_loop H n ?w1 = Some r" by (simp add: Let_def)
      then have "while_loop H m' ?w1 = Some r"
        using flag1 m(2) by (rule Suc.IH)
      then show ?thesis using Cons None m by (simp add: Let_def)
    next
      case (Some S)
      from Suc.prems(1) Cons Some obtain r1 where each: "forEach H n e 0 ?w1 = Some r1"
        by (auto simp: Let_def split: option.splits)
      have each': "forEach H m' e 0 ?w1 = Some r1"
        using each flag1 m(2) by (rule forEach_mono)
      show ?thesis
      proof (cases r1)
        case (Threw w2)
        with Suc.prems(1) Cons Some each each' m show ?thesis by (auto simp: Let_def)
      next
        case (Returned w2)
        with Suc.prems(1) Cons Some each have "while_loop H n w2 = Some r"
          by (simp add: Let_def)
        moreover have "isProcessing (service w2)"
          using forEach_flag [OF each flag1] Returned by simp
        ultimately have "while_loop H m' w2 = Some r"
          using m(2) by (rule Suc.IH)
        then show ?thesis
          using Cons Some each' Returned m by (simp add: Let_def)
      qed
    qed
  qed
qed

lemma processEventQueue_mono:
  assumes "processEventQueue H n w = Some r" and "n \<le> m"
  shows "processEventQueue H m w = Some r"
proof -
  from assms obtain n' m' where nm: "n = Suc n'" "m = Suc m'" "n' \<le> m'"
    by (cases n; cases m) auto
  let ?w1 = "set_isProcessing True (record_call DrainBegin w)"
  from assms(1) nm obtain r1 where loop: "while_loop H n' ?w1 = Some r1"
    by (auto split: option.splits)
  have "isProcessing (service ?w1)"
    by (simp add: set_isProcessing_def)
  with loop have "while_loop H m' ?w1 = Some r1"
    using nm(3) by (rule while_mono)
  with loop assms(1) nm show ?thesis by simp
qed

lemma publish_mono:
  assumes "publish H n e w = Some r" and "n \<le> m"
  shows "publish H m e w = Some r"
proof -
  from assms obtain n' m' where nm: "n = Suc n'" "m = Suc m'" "n' \<le> m'"
    by (cases n; cases m) auto
  show ?thesis
  proof (cases "isProcessing (service w)")
    case True
    with assms(1) nm show ?thesis by (simp add: push_def record_call_def)
  next
    case False
    let ?w1 = "push e (record_call (Published e) w)"
    from False assms(1) nm have "processEventQueue H n' ?w1 = Some r"
      by (simp add: push_def record_call_def Let_def)
    then have "processEventQueue H m' ?w1 = Some r"
      using nm(3) by (rule processEventQueue_mono)
    with False nm show ?thesis
      by (simp add: push_def record_call_def Let_def)
  qed
qed


section \<open>States that look the same behave the same\<close>

lemma same_service_refl: "same_service P P"
  by (simp add: same_service_def)

lemma same_service_apply_call:
  "same_service P Q \<Longrightarrow> same_service (apply_call c P) (apply_call c Q)"
  by (cases c) (auto simp: same_service_def registered_subscribe registered_unsubscribe)

lemma alike_flag: "alike w v \<Longrightarrow> isProcessing (service v) = isProcessing (service w)"
  by (simp add: alike_def same_service_def)

lemma alike_push: "alike w v \<Longrightarrow> alike (push e w) (push e v)"
  using same_service_apply_call [of "service w" "service v" "Published e"]
  by (simp add: alike_def push_def)

lemma alike_record_call: "alike w v \<Longrightarrow> alike (record_call c w) (record_call c v)"
  by (simp add: alike_def record_call_def)

lemma alike_subscribe:
  "alike w v \<Longrightarrow> alike (w\<lparr>service := subscribe t s (service w)\<rparr>) (v\<lparr>service := subscribe t s (service v)\<rparr>)"
  using same_service_apply_call [of "service w" "service v" "Subscribed t s"]
  by (simp add: alike_def)

lemma alike_unsubscribe:
  "alike w v \<Longrightarrow> alike (w\<lparr>service := unsubscribe t s (service w)\<rparr>) (v\<lparr>service := unsubscribe t s (service v)\<rparr>)"
  using same_service_apply_call [of "service w" "service v" "Unsubscribed t s"]
  by (simp add: alike_def)

lemma alike_heap: "alike w v \<Longrightarrow> alike (w\<lparr>heap := h\<rparr>) (v\<lparr>heap := h\<rparr>)"
  by (simp add: alike_def)

lemma alike_set_eventQueue: "alike w v \<Longrightarrow> alike (set_eventQueue q w) (set_eventQueue q v)"
  by (simp add: alike_def set_eventQueue_def same_service_def)

lemma alike_set_isProcessing: "alike w v \<Longrightarrow> alike (set_isProcessing b w) (set_isProcessing b v)"
  by (simp add: alike_def set_isProcessing_def same_service_def)

lemma run_alike:
  assumes "run H n p w = Some r" and "alike w v" and "isProcessing (service w)"
  shows "\<exists>r'. run H n p v = Some r' \<and> alike_outcome r r'"
  using assms
proof (induction n arbitrary: p w v)
  case 0
  then show ?case by simp
next
  case (Suc n)
  have flag: "isProcessing (service v)"
    using alike_flag [OF Suc.prems(2)] Suc.prems(3) by simp
  show ?case
  proof (cases p)
    case Return
    with Suc.prems show ?thesis by auto
  next
    case Raise
    with Suc.prems show ?thesis by auto
  next
    case (Publish e q)
    let ?w1 = "push e (record_call (Published e) w)"
    let ?v1 = "push e (record_call (Published e) v)"
    from Suc.prems(1) Publish obtain n' where n: "n = Suc n'"
      by (cases n) auto
    have "run H n q ?w1 = Some r"
      using Suc.prems(1,3) Publish n by (simp add: push_def record_call_def)
    moreover have "alike ?w1 ?v1"
      using Suc.prems(2) by (intro alike_push alike_record_call)
    moreover have "isProcessing (service ?w1)"
      using Suc.prems(3) by (simp add: push_def record_call_def)
    ultimately obtain r' where "run H n q ?v1 = Some r'" "alike_outcome r r'"
      using Suc.IH by blast
    then show ?thesis
      using Publish n flag by (simp add: push_def record_call_def)
  next
    case (Subscribe t s q)
    let ?w1 = "record_call (Subscribed t s) (w\<lparr>service := subscribe t s (service w)\<rparr>)"
    let ?v1 = "record_call (Subscribed t s) (v\<lparr>service := subscribe t s (service v)\<rparr>)"
    have "run H n q ?w1 = Some r"
      using Suc.prems(1) Subscribe by simp
    moreover have "alike ?w1 ?v1"
      using Suc.prems(2) by (intro alike_record_call alike_subscribe)
    moreover have "isProcessing (service ?w1)"
      using Suc.prems(3) by (simp add: record_call_def)
    ultimately obtain r' where "run H n q ?v1 = Some r'" "alike_outcome r r'"
      using Suc.IH by blast
    then show ?thesis using Subscribe by simp
  next
    case (Unsubscribe t s q)
    let ?w1 = "record_call (Unsubscribed t s) (w\<lparr>service := unsubscribe t s (service w)\<rparr>)"
    let ?v1 = "record_call (Unsubscribed t s) (v\<lparr>service := unsubscribe t s (service v)\<rparr>)"
    have "run H n q ?w1 = Some r"
      using Suc.prems(1) Unsubscribe by simp
    moreover have "alike ?w1 ?v1"
      using Suc.prems(2) by (intro alike_record_call alike_unsubscribe)
    moreover have "isProcessing (service ?w1)"
      using Suc.prems(3) by (simp add: record_call_def)
    ultimately obtain r' where "run H n q ?v1 = Some r'" "alike_outcome r r'"
      using Suc.IH by blast
    then show ?thesis using Unsubscribe by simp
  next
    case (Get f)
    have "heap v = heap w"
      using Suc.prems(2) by (simp add: alike_def)
    moreover have "run H n (f (heap w)) w = Some r"
      using Suc.prems(1) Get by simp
    then obtain r' where "run H n (f (heap w)) v = Some r'" "alike_outcome r r'"
      using Suc.IH Suc.prems(2,3) by blast
    ultimately show ?thesis using Get by simp
  next
    case (Put h q)
    have "run H n q (w\<lparr>heap := h\<rparr>) = Some r"
      using Suc.prems(1) Put by simp
    moreover have "alike (w\<lparr>heap := h\<rparr>) (v\<lparr>heap := h\<rparr>)"
      using Suc.prems(2) by (rule alike_heap)
    moreover have "isProcessing (service (w\<lparr>heap := h\<rparr>))"
      using Suc.prems(3) by simp
    ultimately obtain r' where "run H n q (v\<lparr>heap := h\<rparr>) = Some r'" "alike_outcome r r'"
      using Suc.IH by blast
    then show ?thesis using Put by simp
  qed
qed

lemma first_member:
  "members T = s # rest \<Longrightarrow>
   \<exists>k. k < length T \<and> (\<forall>l<k. T ! l = None) \<and> T ! k = Some s \<and> members (drop (Suc k) T) = rest"
proof (induction T rule: members.induct)
  case 1
  then show ?case by simp
next
  case (2 S)
  then obtain k where k: "k < length S" "\<forall>l<k. S ! l = None" "S ! k = Some s"
    "members (drop (Suc k) S) = rest"
    by auto
  have "\<forall>l<Suc k. (None # S) ! l = None"
    using k(2) by (auto simp: nth_Cons split: nat.splits)
  then have "Suc k < length (None # S) \<and> (\<forall>l<Suc k. (None # S) ! l = None) \<and>
      (None # S) ! Suc k = Some s \<and> members (drop (Suc (Suc k)) (None # S)) = rest"
    using k by simp
  then show ?case by blast
next
  case (3 x S)
  then have "0 < length (Some x # S) \<and> (\<forall>l<0. (Some x # S) ! l = None) \<and>
      (Some x # S) ! 0 = Some s \<and> members (drop (Suc 0) (Some x # S)) = rest"
    by simp
  then show ?case by blast
qed

lemma pending_first:
  assumes "pending P t j = s # rest"
  shows "\<exists>k. j + k < length (entries P t) \<and> (\<forall>l<k. entries P t ! (j + l) = None) \<and>
           entries P t ! (j + k) = Some s \<and> pending P t (Suc (j + k)) = rest"
proof -
  let ?S = "entries P t"
  have j: "j \<le> length ?S"
    using assms by (cases "j \<le> length ?S") (auto simp: pending_def)
  obtain k where k: "k < length (drop j ?S)" "\<forall>l<k. drop j ?S ! l = None"
    "drop j ?S ! k = Some s" "members (drop (Suc k) (drop j ?S)) = rest"
    using first_member [of "drop j ?S" s rest] assms by (auto simp: pending_def)
  have "j + k < length ?S \<and> (\<forall>l<k. ?S ! (j + l) = None) \<and> ?S ! (j + k) = Some s \<and>
      pending P t (Suc (j + k)) = rest"
    using k j by (auto simp: pending_def add.commute)
  then show ?thesis by blast
qed

lemma forEach_skip:
  assumes "\<forall>l<k. entries (service v) (type e) ! (j + l) = None"
    and "j + k \<le> length (entries (service v) (type e))"
  shows "forEach H (k + m) e j v = forEach H m e (j + k) v"
  using assms
proof (induction k arbitrary: j)
  case 0
  then show ?case by simp
next
  case (Suc k)
  obtain S where S: "subscribers (service v) (type e) = Some S" "entries (service v) (type e) = S"
    using Suc.prems(2) by (cases "subscribers (service v) (type e)") (auto simp: entries_def)
  have "S ! j = None" "j < length S"
    using Suc.prems S(2) by (auto dest: spec [of _ 0])
  then have "forEach H (Suc k + m) e j v = forEach H (k + m) e (Suc j) v"
    using S(1) by simp
  also have "\<dots> = forEach H m e (Suc j + k) v"
    using Suc.prems by (intro Suc.IH) (auto dest: spec [of _ "Suc _"])
  finally show ?case by simp
qed

lemma forEach_nobody:
  assumes "pending (service v) (type e) j = []"
  shows "forEach H (Suc (length (entries (service v) (type e)) - j)) e j v = Some (Returned v)"
  using assms
proof (induction "length (entries (service v) (type e)) - j" arbitrary: j)
  case 0
  then show ?case
    by (cases "subscribers (service v) (type e)") (auto simp: entries_def)
next
  case (Suc d)
  obtain S where S: "subscribers (service v) (type e) = Some S" "entries (service v) (type e) = S"
    using Suc.hyps(2) by (cases "subscribers (service v) (type e)") (auto simp: entries_def)
  have j: "j < length S"
    using Suc.hyps(2) S(2) by simp
  have here: "S ! j = None" and later: "pending (service v) (type e) (Suc j) = []"
    using Suc.prems j S(2) by (auto simp: pending_def members_drop split: option.splits)
  have "d = length (entries (service v) (type e)) - Suc j"
    using Suc.hyps(2) by simp
  then have "forEach H (Suc (length S - Suc j)) e (Suc j) v = Some (Returned v)"
    using Suc.hyps(1) [of "Suc j"] later S(2) by simp
  moreover have "Suc (length S - j) = Suc (Suc (length S - Suc j))"
    using j by simp
  ultimately show ?case
    using S here j by simp
qed

lemma Some_in_entries: "Some x \<in> set (entries P t) \<longleftrightarrow> x \<in> set (registered P t)"
  by (simp add: registered_entries set_members)

lemma drop_Set_delete: "drop i (Set_delete S x) = Set_delete (drop i S) x"
  by (simp add: Set_delete_def drop_map)

lemma pending_apply_call:
  assumes "registered P t = registered Q t" and "pending P t i = pending Q t j"
    and "i \<le> length (entries P t)" and "j \<le> length (entries Q t)"
  shows "pending (apply_call c P) t i = pending (apply_call c Q) t j"
proof (cases c)
  case (Subscribed t' x)
  have "Some x \<in> set (entries P t) \<longleftrightarrow> Some x \<in> set (entries Q t)"
    using assms(1) by (simp add: Some_in_entries)
  then show ?thesis
    using assms Subscribed
    by (auto simp: pending_def entries_subscribe Set_add_def members_append)
next
  case (Unsubscribed t' x)
  then show ?thesis
    using assms
    by (auto simp: pending_def entries_unsubscribe drop_Set_delete members_Set_delete)
qed (use assms in \<open>simp_all add: pending_def\<close>)

lemma pending_replay:
  assumes "same_service P Q" and "pending P t i = pending Q t j"
    and "i \<le> length (entries P t)" and "j \<le> length (entries Q t)"
  shows "pending (replay seg P) t i = pending (replay seg Q) t j"
  using assms
proof (induction seg arbitrary: P Q)
  case Nil
  then show ?case by simp
next
  case (Cons c seg)
  have "same_service (apply_call c P) (apply_call c Q)"
    using Cons.prems(1) by (rule same_service_apply_call)
  moreover have "pending (apply_call c P) t i = pending (apply_call c Q) t j"
    using Cons.prems by (intro pending_apply_call) (simp_all add: same_service_def)
  moreover have "i \<le> length (entries (apply_call c P) t)" "j \<le> length (entries (apply_call c Q) t)"
    using evolves_apply_call [of P t c] evolves_apply_call [of Q t c] Cons.prems(3,4)
    by (simp_all add: evolves_def)
  ultimately show ?case
    using Cons.IH [of "apply_call c P" "apply_call c Q"] by simp
qed

lemma forEach_at:
  assumes "i < length (entries (service v) (type e))"
    and "entries (service v) (type e) ! i = Some s"
  shows "forEach H (Suc n) e i v =
    (case run H n (H s e) (record_call (Handled s e) v) of
       Some (Returned v') \<Rightarrow> forEach H n e (i + 1) v'
     | r \<Rightarrow> r)"
  using assms by (cases "subscribers (service v) (type e)") (auto simp: entries_def)

lemma forEach_alike:
  assumes "forEach H n e i w = Some r" and "alike w v" and "isProcessing (service w)"
    and "pending (service w) (type e) i = pending (service v) (type e) j"
    and "i \<le> length (entries (service w) (type e))"
    and "j \<le> length (entries (service v) (type e))"
  shows "\<exists>m r'. forEach H m e j v = Some r' \<and> alike_outcome r r'"
  using assms
proof (induction n arbitrary: i w j v)
  case 0
  then show ?case by simp
next
  case (Suc n)
  let ?S = "entries (service w) (type e)"
  have flagv: "isProcessing (service v)"
    using alike_flag [OF Suc.prems(2)] Suc.prems(3) by simp
  show ?case
  proof (cases "i < length ?S")
    case False
    then have "r = Returned w"
      using Suc.prems(1)
      by (cases "subscribers (service w) (type e)") (auto simp: entries_def)
    moreover have "pending (service v) (type e) j = []"
      using False Suc.prems(4) by (simp add: pending_def)
    then have "forEach H (Suc (length (entries (service v) (type e)) - j)) e j v = Some (Returned v)"
      by (rule forEach_nobody)
    ultimately have "forEach H (Suc (length (entries (service v) (type e)) - j)) e j v = Some (Returned v) \<and>
        alike_outcome r (Returned v)"
      using Suc.prems(2) by simp
    then show ?thesis by blast
  next
    case inside: True
    then obtain S where S: "subscribers (service w) (type e) = Some S" "?S = S"
      by (cases "subscribers (service w) (type e)") (auto simp: entries_def)
    show ?thesis
    proof (cases "S ! i")
      case None
      have next_call: "forEach H n e (i + 1) w = Some r"
        using Suc.prems(1) S inside None by simp
      have next_pending: "pending (service w) (type e) (i + 1) = pending (service v) (type e) j"
        using Suc.prems(4) inside S(2) None by (simp add: pending_def members_drop)
      have next_index: "i + 1 \<le> length (entries (service w) (type e))"
        using inside by simp
      show ?thesis
        using Suc.IH [OF next_call Suc.prems(2,3) next_pending next_index Suc.prems(6)] .
    next
      case entry: (Some s)
      let ?w0 = "record_call (Handled s e) w"
      let ?v0 = "record_call (Handled s e) v"
      have alike0: "alike ?w0 ?v0"
        using Suc.prems(2) by (rule alike_record_call)
      have flag0: "isProcessing (service ?w0)" "isProcessing (service ?v0)"
        using Suc.prems(3) flagv by (simp_all add: record_call_def)
      have "pending (service v) (type e) j = s # pending (service w) (type e) (Suc i)"
        using Suc.prems(4) inside S(2) entry by (simp add: pending_def members_drop)
      then obtain k where k: "j + k < length (entries (service v) (type e))"
        "\<forall>l<k. entries (service v) (type e) ! (j + l) = None"
        "entries (service v) (type e) ! (j + k) = Some s"
        "pending (service v) (type e) (Suc (j + k)) = pending (service w) (type e) (Suc i)"
        using pending_first by blast
      have skip: "forEach H (k + Suc m) e j v =
          (case run H m (H s e) ?v0 of
             Some (Returned v') \<Rightarrow> forEach H m e (j + k + 1) v'
           | r \<Rightarrow> r)" for m
        using forEach_skip [OF k(2), of H "Suc m"] forEach_at [OF k(1,3), of H m] k(1) by simp
      from Suc.prems(1) S inside entry
      obtain r1 where run: "run H n (H s e) ?w0 = Some r1"
        by (auto split: option.splits)
      obtain r1' where run': "run H n (H s e) ?v0 = Some r1'" and alike1: "alike_outcome r1 r1'"
        using run_alike [OF run alike0 flag0(1)] by blast
      show ?thesis
      proof (cases r1)
        case (Threw w1)
        then have r: "r = r1"
          using Suc.prems(1) S inside entry run by simp
        obtain v1 where v1: "r1' = Threw v1"
          using alike1 Threw by (cases r1') auto
        have "forEach H (k + Suc n) e j v = Some r1'"
          using skip [of n] run' v1 by simp
        then show ?thesis
          using alike1 r by blast
      next
        case (Returned w1)
        then obtain v1 where v1: "r1' = Returned v1" "alike w1 v1"
          using alike1 by (cases r1') auto
        have rest: "forEach H n e (i + 1) w1 = Some r"
          using Suc.prems(1) S inside entry run Returned by simp
        have flag1: "isProcessing (service w1)" "isProcessing (service v1)"
          using run_flag [OF run flag0(1)] run_flag [OF run' flag0(2)] Returned v1 by simp_all
        obtain seg where seg: "trace w1 = trace ?w0 @ seg" "service w1 = replay seg (service ?w0)"
          using run_inside [OF run flag0(1)] Returned by auto
        obtain seg' where seg': "trace v1 = trace ?v0 @ seg'" "service v1 = replay seg' (service ?v0)"
          using run_inside [OF run' flag0(2)] v1 by auto
        have "seg' = seg"
          using seg(1) seg'(1) v1(2) alike0 by (simp add: alike_def)
        then have after: "service w1 = replay seg (service w)" "service v1 = replay seg (service v)"
          using seg(2) seg'(2) by (simp_all add: record_call_def)
        have "pending (replay seg (service w)) (type e) (Suc i) =
              pending (replay seg (service v)) (type e) (Suc (j + k))"
        proof (rule pending_replay)
          show "same_service (service w) (service v)"
            using Suc.prems(2) by (simp add: alike_def)
          show "pending (service w) (type e) (Suc i) = pending (service v) (type e) (Suc (j + k))"
            using k(4) by (rule sym)
          show "Suc i \<le> length (entries (service w) (type e))"
            using inside by simp
          show "Suc (j + k) \<le> length (entries (service v) (type e))"
            using k(1) by simp
        qed
        then have next_pending:
          "pending (service w1) (type e) (i + 1) = pending (service v1) (type e) (j + k + 1)"
          by (simp only: after Suc_eq_plus1)
        have "length (entries (service w) (type e)) \<le> length (entries (service w1) (type e))"
          "length (entries (service v) (type e)) \<le> length (entries (service v1) (type e))"
          using evolves_replay [of "service w" "type e" seg]
            evolves_replay [of "service v" "type e" seg]
          by (simp_all only: after evolves_def)
        then have next_index: "i + 1 \<le> length (entries (service w1) (type e))"
          "j + k + 1 \<le> length (entries (service v1) (type e))"
          using inside k(1) by linarith+
        obtain m2 r' where m2: "forEach H m2 e (j + k + 1) v1 = Some r'" "alike_outcome r r'"
          using Suc.IH [OF rest v1(2) flag1(1) next_pending next_index] by blast
        define M where "M = max n m2"
        have M: "n \<le> M" "m2 \<le> M"
          by (simp_all add: M_def)
        have run_M: "run H M (H s e) ?v0 = Some (Returned v1)"
          using run' flag0(2) M(1) unfolding v1(1) by (rule run_mono)
        have rest_M: "forEach H M e (j + k + 1) v1 = Some r'"
          using m2(1) flag1(2) M(2) by (rule forEach_mono)
        have "forEach H (k + Suc M) e j v = Some r'"
          unfolding skip run_M using rest_M by simp
        then show ?thesis using m2(2) by blast
      qed
    qed
  qed
qed

lemma while_step:
  assumes "eventQueue (service v) = e # rest"
    and "forEach H (Suc m) e 0 (set_eventQueue rest (record_call (Shifted e) v)) = Some r1"
    and "isProcessing (service v)"
  shows "while_loop H (Suc (Suc m)) v =
    (case r1 of Returned v2 \<Rightarrow> while_loop H (Suc m) v2 | Threw v2 \<Rightarrow> Some r1)"
proof -
  let ?v1 = "set_eventQueue rest (record_call (Shifted e) v)"
  show ?thesis
  proof (cases "subscribers (service ?v1) (type e)")
    case None
    with assms show ?thesis by (auto simp: Let_def)
  next
    case (Some S)
    with assms(1,2) show ?thesis
      by (cases r1) (simp_all add: Let_def)
  qed
qed

lemma while_first:
  assumes "while_loop H (Suc n) w = Some r" and "eventQueue (service w) = e # rest"
    and "isProcessing (service w)"
  shows "\<exists>r1. forEach H (Suc n) e 0 (set_eventQueue rest (record_call (Shifted e) w)) = Some r1 \<and>
    (case r1 of Returned w2 \<Rightarrow> while_loop H n w2 = Some r | Threw w2 \<Rightarrow> r = r1)"
proof -
  let ?w1 = "set_eventQueue rest (record_call (Shifted e) w)"
  have flag1: "isProcessing (service ?w1)"
    using assms(3) by (simp add: set_eventQueue_def record_call_def)
  show ?thesis
  proof (cases "subscribers (service ?w1) (type e)")
    case None
    then have "forEach H (Suc n) e 0 ?w1 = Some (Returned ?w1) \<and>
        (case Returned ?w1 of Returned w2 \<Rightarrow> while_loop H n w2 = Some r | Threw w2 \<Rightarrow> r = Returned ?w1)"
      using assms(1,2) by (simp add: Let_def)
    then show ?thesis by blast
  next
    case (Some S)
    with assms(1,2) obtain r1 where each: "forEach H n e 0 ?w1 = Some r1"
      by (auto simp: Let_def split: option.splits)
    have "forEach H (Suc n) e 0 ?w1 = Some r1"
      using each flag1 by (rule forEach_mono) simp
    moreover have "case r1 of Returned w2 \<Rightarrow> while_loop H n w2 = Some r | Threw w2 \<Rightarrow> r = r1"
      using assms(1,2) Some each by (cases r1) (auto simp: Let_def)
    ultimately show ?thesis by blast
  qed
qed

lemma pending_0: "pending P t 0 = registered P t"
  by (simp add: pending_def registered_entries)

lemma while_alike:
  assumes "while_loop H n w = Some r" and "alike w v" and "isProcessing (service w)"
  shows "\<exists>m r'. while_loop H m v = Some r' \<and> alike_outcome r r'"
  using assms
proof (induction n arbitrary: w v)
  case 0
  then show ?case by simp
next
  case (Suc n)
  have flagv: "isProcessing (service v)"
    using alike_flag [OF Suc.prems(2)] Suc.prems(3) by simp
  have queue: "eventQueue (service v) = eventQueue (service w)"
    using Suc.prems(2) by (simp add: alike_def same_service_def)
  show ?case
  proof (cases "eventQueue (service w)")
    case Nil
    then have "while_loop H (Suc 0) v = Some (Returned v) \<and> alike_outcome r (Returned v)"
      using Suc.prems(1,2) queue by auto
    then show ?thesis by blast
  next
    case (Cons e rest)
    let ?w1 = "set_eventQueue rest (record_call (Shifted e) w)"
    let ?v1 = "set_eventQueue rest (record_call (Shifted e) v)"
    have alike1: "alike ?w1 ?v1"
      using Suc.prems(2) by (intro alike_set_eventQueue alike_record_call)
    have flag1: "isProcessing (service ?w1)" "isProcessing (service ?v1)"
      using Suc.prems(3) flagv by (simp_all add: set_eventQueue_def record_call_def)
    obtain r1 where each: "forEach H (Suc n) e 0 ?w1 = Some r1"
      and after: "case r1 of Returned w2 \<Rightarrow> while_loop H n w2 = Some r | Threw w2 \<Rightarrow> r = r1"
      using while_first [OF Suc.prems(1) Cons Suc.prems(3)] by blast
    have "pending (service ?w1) (type e) 0 = pending (service ?v1) (type e) 0"
      using alike1 by (simp add: pending_0 alike_def same_service_def)
    then obtain m1 r1' where each': "forEach H m1 e 0 ?v1 = Some r1'"
      and alike_r1: "alike_outcome r1 r1'"
      using forEach_alike [OF each alike1 flag1(1), of 0] by auto
    show ?thesis
    proof (cases r1)
      case (Threw w2)
      then obtain v2 where v2: "r1' = Threw v2"
        using alike_r1 by (cases r1') auto
      have "forEach H (Suc m1) e 0 ?v1 = Some r1'"
        using each' flag1(2) by (rule forEach_mono) simp
      then have "while_loop H (Suc (Suc m1)) v = Some r1'"
        using while_step [of v e rest H m1 r1'] queue Cons flagv v2 by simp
      moreover have "r = r1"
        using after Threw by simp
      ultimately show ?thesis
        using alike_r1 by blast
    next
      case (Returned w2)
      then obtain v2 where v2: "r1' = Returned v2" "alike w2 v2"
        using alike_r1 by (cases r1') auto
      have rest: "while_loop H n w2 = Some r"
        using after Returned by simp
      have flag2: "isProcessing (service w2)" "isProcessing (service v2)"
        using forEach_flag [OF each flag1(1)] forEach_flag [OF each' flag1(2)] Returned v2(1)
        by simp_all
      obtain m2 r' where m2: "while_loop H m2 v2 = Some r'" "alike_outcome r r'"
        using Suc.IH [OF rest v2(2) flag2(1)] by blast
      define M where "M = max m1 m2"
      have M: "m1 \<le> Suc M" "m2 \<le> Suc M"
        by (simp_all add: M_def)
      have "forEach H (Suc M) e 0 ?v1 = Some (Returned v2)"
        using each' flag1(2) M(1) unfolding v2(1) by (rule forEach_mono)
      then have "while_loop H (Suc (Suc M)) v = while_loop H (Suc M) v2"
        using while_step [of v e rest H M "Returned v2"] queue Cons flagv by simp
      also have "while_loop H (Suc M) v2 = Some r'"
        using m2(1) flag2(2) M(2) by (rule while_mono)
      finally show ?thesis
        using m2(2) by blast
    qed
  qed
qed

lemma processEventQueue_alike:
  assumes "processEventQueue H n w = Some r" and "alike w v"
  shows "\<exists>m r'. processEventQueue H m v = Some r' \<and> alike_outcome r r'"
proof -
  from assms(1) obtain n' where n: "n = Suc n'"
    by (cases n) auto
  let ?w1 = "set_isProcessing True (record_call DrainBegin w)"
  let ?v1 = "set_isProcessing True (record_call DrainBegin v)"
  have alike1: "alike ?w1 ?v1"
    using assms(2) by (intro alike_set_isProcessing alike_record_call)
  have flag1: "isProcessing (service ?w1)"
    by (simp add: set_isProcessing_def)
  from assms(1) n obtain r1 where loop: "while_loop H n' ?w1 = Some r1"
    by (auto split: option.splits)
  obtain m r1' where loop': "while_loop H m ?v1 = Some r1'" and alike_r1: "alike_outcome r1 r1'"
    using while_alike [OF loop alike1 flag1] by blast
  show ?thesis
  proof (cases r1)
    case (Threw w2)
    then obtain v2 where "r1' = Threw v2"
      using alike_r1 by (cases r1') auto
    then have "processEventQueue H (Suc m) v = Some r1'"
      using loop' by simp
    moreover have "r = r1"
      using assms(1) n loop Threw by simp
    ultimately show ?thesis
      using alike_r1 by blast
  next
    case (Returned w2)
    then obtain v2 where v2: "r1' = Returned v2" "alike w2 v2"
      using alike_r1 by (cases r1') auto
    have r: "r = Returned (record_call DrainEnd (set_isProcessing False w2))"
      using assms(1) n loop Returned by simp
    have ended: "processEventQueue H (Suc m) v =
        Some (Returned (record_call DrainEnd (set_isProcessing False v2)))"
      using loop' v2(1) by simp
    have "alike (record_call DrainEnd (set_isProcessing False w2))
        (record_call DrainEnd (set_isProcessing False v2))"
      using v2(2) by (intro alike_record_call alike_set_isProcessing)
    then have "alike_outcome r (Returned (record_call DrainEnd (set_isProcessing False v2)))"
      using r by simp
    then show ?thesis
      using ended by blast
  qed
qed

lemma publish_alike:
  assumes "publish H n e w = Some r" and "alike w v"
  shows "\<exists>m r'. publish H m e v = Some r' \<and> alike_outcome r r'"
proof -
  from assms(1) obtain n' where n: "n = Suc n'"
    by (cases n) auto
  let ?w1 = "push e (record_call (Published e) w)"
  let ?v1 = "push e (record_call (Published e) v)"
  have alike1: "alike ?w1 ?v1"
    using assms(2) by (intro alike_push alike_record_call)
  have flag: "isProcessing (service v) = isProcessing (service w)"
    using assms(2) by (rule alike_flag)
  show ?thesis
  proof (cases "isProcessing (service w)")
    case True
    then have r: "r = Returned ?w1" and one: "publish H (Suc 0) e v = Some (Returned ?v1)"
      using assms(1) n flag by (simp_all add: push_def record_call_def)
    have "alike_outcome r (Returned ?v1)"
      using alike1 r by simp
    then show ?thesis
      using one by blast
  next
    case False
    then have "processEventQueue H n' ?w1 = Some r"
      using assms(1) n by (simp add: push_def record_call_def Let_def)
    then obtain m r' where "processEventQueue H m ?v1 = Some r'" "alike_outcome r r'"
      using processEventQueue_alike [OF _ alike1] by blast
    moreover have "publish H (Suc m) e v = processEventQueue H m ?v1"
      using False flag by (simp add: push_def record_call_def Let_def)
    ultimately have "publish H (Suc m) e v = Some r' \<and> alike_outcome r r'"
      by (simp only: simp_thms)
    then show ?thesis by blast
  qed
qed

lemma perform_mono:
  assumes "perform H n requests w = Some r" and "n \<le> m"
  shows "perform H m requests w = Some r"
  using assms
proof (induction H n requests w rule: perform.induct)
  case (2 H n e requests w)
  from "2.prems"(1) obtain r1 where one: "publish H n e w = Some r1"
    by (auto split: option.splits)
  have one': "publish H m e w = Some r1"
    using one "2.prems"(2) by (rule publish_mono)
  show ?case
  proof (cases r1)
    case (Threw w1)
    with "2.prems"(1) one one' show ?thesis by auto
  next
    case (Returned w1)
    with "2.prems"(1) one have "perform H n requests w1 = Some r" by simp
    then have "perform H m requests w1 = Some r"
      using "2.IH" [OF one Returned] "2.prems"(2) by blast
    with one' Returned show ?thesis by simp
  qed
qed simp_all

lemma perform_alike:
  assumes "perform H n requests w = Some r" and "alike w v"
  shows "\<exists>m r'. perform H m requests v = Some r' \<and> alike_outcome r r'"
  using assms
proof (induction H n requests w arbitrary: v rule: perform.induct)
  case (1 H n w)
  then have "perform H 0 [] v = Some (Returned v) \<and> alike_outcome r (Returned v)"
    by auto
  then show ?case by blast
next
  case (2 H n e requests w)
  from "2.prems"(1) obtain r1 where one: "publish H n e w = Some r1"
    by (auto split: option.splits)
  obtain m1 r1' where one': "publish H m1 e v = Some r1'" and alike_r1: "alike_outcome r1 r1'"
    using publish_alike [OF one "2.prems"(2)] by blast
  show ?case
  proof (cases r1)
    case (Threw w1)
    then obtain v1 where "r1' = Threw v1"
      using alike_r1 by (cases r1') auto
    then have "perform H m1 (Request_publish e # requests) v = Some r1'"
      using one' by simp
    moreover have "r = r1"
      using "2.prems"(1) one Threw by simp
    ultimately show ?thesis
      using alike_r1 by blast
  next
    case (Returned w1)
    then obtain v1 where v1: "r1' = Returned v1" "alike w1 v1"
      using alike_r1 by (cases r1') auto
    have "perform H n requests w1 = Some r"
      using "2.prems"(1) one Returned by simp
    then obtain m2 r' where m2: "perform H m2 requests v1 = Some r'" "alike_outcome r r'"
      using "2.IH" [OF one Returned _ v1(2)] by blast
    define M where "M = max m1 m2"
    have M: "m1 \<le> M" "m2 \<le> M"
      by (simp_all add: M_def)
    have "publish H M e v = Some (Returned v1)"
      using one' M(1) unfolding v1(1) by (rule publish_mono)
    moreover have "perform H M requests v1 = Some r'"
      using m2(1) M(2) by (rule perform_mono)
    ultimately have "perform H M (Request_publish e # requests) v = Some r'"
      by simp
    then show ?thesis
      using m2(2) by blast
  qed
next
  case (3 H n t s requests w)
  let ?w1 = "record_call (Subscribed t s) (w\<lparr>service := subscribe t s (service w)\<rparr>)"
  let ?v1 = "record_call (Subscribed t s) (v\<lparr>service := subscribe t s (service v)\<rparr>)"
  have "perform H n requests ?w1 = Some r"
    using "3.prems"(1) by simp
  moreover have "alike ?w1 ?v1"
    using "3.prems"(2) by (intro alike_record_call alike_subscribe)
  ultimately obtain m r' where "perform H m requests ?v1 = Some r'" "alike_outcome r r'"
    using "3.IH" by blast
  then have "perform H m (Request_subscribe t s # requests) v = Some r' \<and> alike_outcome r r'"
    by simp
  then show ?case by blast
next
  case (4 H n t s requests w)
  let ?w1 = "record_call (Unsubscribed t s) (w\<lparr>service := unsubscribe t s (service w)\<rparr>)"
  let ?v1 = "record_call (Unsubscribed t s) (v\<lparr>service := unsubscribe t s (service v)\<rparr>)"
  have "perform H n requests ?w1 = Some r"
    using "4.prems"(1) by simp
  moreover have "alike ?w1 ?v1"
    using "4.prems"(2) by (intro alike_record_call alike_unsubscribe)
  ultimately obtain m r' where "perform H m requests ?v1 = Some r'" "alike_outcome r r'"
    using "4.IH" by blast
  then have "perform H m (Request_unsubscribe t s # requests) v = Some r' \<and> alike_outcome r r'"
    by simp
  then show ?case by blast
qed

lemma alike_sym: "alike w v \<Longrightarrow> alike v w"
  by (simp add: alike_def same_service_def)

lemma alike_outcome_sym: "alike_outcome r r' \<Longrightarrow> alike_outcome r' r"
  by (cases "(r, r')" rule: alike_outcome.cases) (auto intro: alike_sym)

lemma Set_delete_twice: "Set_delete (Set_delete S x) x = Set_delete S x"
  by (induction S) (auto simp: Set_delete_def)

lemma unsubscribe_twice: "unsubscribe t s (unsubscribe t s P) = unsubscribe t s P"
  by (auto simp: unsubscribe_def Set_delete_twice split: option.splits)

lemma round_trip_same:
  assumes "s \<notin> set (registered P t)"
  shows "same_service (unsubscribe t s (subscribe t s P)) P"
  using assms by (simp add: same_service_def registered_subscribe registered_unsubscribe)


section \<open>Subscribe, then unsubscribe\<close>

text \<open>
  Claim C6 as stated, for every registry state, fails where the subscriber is already
  registered for the kind: \<open>subscribe\<close> then changes nothing and \<open>unsubscribe\<close> removes
  the registration that was there before. In the wired system the sale subscriber is
  registered for sales; after the two calls it is not, and a sale no longer changes the
  stock.
\<close>

theorem round_trip_counterexample:
  "registered (service normalCase) ''sale'' = [saleSubscriber] \<and>
   registered (unsubscribe ''sale'' saleSubscriber
     (subscribe ''sale'' saleSubscriber (service normalCase))) ''sale'' = [] \<and>
   map_option (map stockLevel)
     (map_option machines (map_option heap
       (returned (publish handlers 30 (MachineSaleEvent 8 ''001'') normalCase)))) =
     Some [2, 10, 10] \<and>
   map_option (map stockLevel)
     (map_option machines (map_option heap
       (returned (publish handlers 30 (MachineSaleEvent 8 ''001'') unwired)))) =
     Some [10, 10, 10]"
  by code_simp

text \<open>
  Claim C6, amended. For every dispatcher state, kind and subscriber that is not
  registered for the kind in that state, \<open>subscribe\<close> followed by \<open>unsubscribe\<close> leads
  to a state with the same registered subscribers for every kind, the same queue and
  the same flag; a second \<open>unsubscribe\<close> changes nothing at all (and is no error:
  \<open>unsubscribe\<close> only returns a state). No later sequence of publish calls tells the
  two states apart, whatever the handlers do: from worlds that differ only in holding
  one state or the other, the sequence ends the same way (return or exception) with
  the same heap, the same trace of calls and handler invocations, and again the same
  registered subscribers. This covers the kind that is left with an empty set where it
  had no entry before.
\<close>

theorem subscribe_unsubscribe_round_trip:
  assumes "s \<notin> set (registered P t)"
  shows "same_service (unsubscribe t s (subscribe t s P)) P \<and>
    unsubscribe t s (unsubscribe t s (subscribe t s P)) = unsubscribe t s (subscribe t s P) \<and>
    (service w = unsubscribe t s (subscribe t s P) \<longrightarrow> service v = P \<longrightarrow>
     heap w = heap v \<longrightarrow> trace w = trace v \<longrightarrow>
       (perform H n requests w = Some r \<longrightarrow>
          (\<exists>m r'. perform H m requests v = Some r' \<and> alike_outcome r r')) \<and>
       (perform H n requests v = Some r \<longrightarrow>
          (\<exists>m r'. perform H m requests w = Some r' \<and> alike_outcome r r')))"
proof (intro conjI impI)
  show same: "same_service (unsubscribe t s (subscribe t s P)) P"
    using assms by (rule round_trip_same)
  show "unsubscribe t s (unsubscribe t s (subscribe t s P)) = unsubscribe t s (subscribe t s P)"
    by (rule unsubscribe_twice)
  assume worlds: "service w = unsubscribe t s (subscribe t s P)" "service v = P"
    "heap w = heap v" "trace w = trace v"
  then have alike: "alike w v"
    using same by (simp add: alike_def)
  show "\<exists>m r'. perform H m requests v = Some r' \<and> alike_outcome r r'"
    if "perform H n requests w = Some r"
    using perform_alike [OF that alike] .
  show "\<exists>m r'. perform H m requests w = Some r' \<and> alike_outcome r r'"
    if "perform H n requests v = Some r"
    using perform_alike [OF that alike_sym [OF alike]] .
qed

theorem subscribe_unsubscribe_round_trip_witness:
  "stockWarningSubscriber \<notin> set (registered (service normalCase) ''sale'') \<and>
   same_service (service rewired) (service normalCase) \<and>
   unsubscribe ''sale'' stockWarningSubscriber (service rewired) = service rewired \<and>
   heap rewired = heap normalCase \<and> trace rewired = trace normalCase \<and>
   returns (perform handlers 30
       [Request_publish (MachineSaleEvent 8 ''001''), Request_subscribe ''sale'' refillSubscriber,
        Request_publish (MachineRefillEvent 5 ''001'')] rewired)
     (\<lambda>w'. \<exists>m r'. perform handlers m
       [Request_publish (MachineSaleEvent 8 ''001''), Request_subscribe ''sale'' refillSubscriber,
        Request_publish (MachineRefillEvent 5 ''001'')] normalCase = Some r' \<and>
       alike_outcome (Returned w') r') \<and>
   returns (perform handlers 30
       [Request_publish (MachineSaleEvent 8 ''001''), Request_subscribe ''sale'' refillSubscriber,
        Request_publish (MachineRefillEvent 5 ''001'')] normalCase)
     (\<lambda>w'. \<exists>m r'. perform handlers m
       [Request_publish (MachineSaleEvent 8 ''001''), Request_subscribe ''sale'' refillSubscriber,
        Request_publish (MachineRefillEvent 5 ''001'')] rewired = Some r' \<and>
       alike_outcome (Returned w') r')"
proof -
  let ?requests = "[Request_publish (MachineSaleEvent 8 ''001''),
    Request_subscribe ''sale'' refillSubscriber, Request_publish (MachineRefillEvent 5 ''001'')]"
  let ?P = "service normalCase"
  have fresh: "stockWarningSubscriber \<notin> set (registered ?P ''sale'')"
    by code_simp
  have worlds: "service rewired =
      unsubscribe ''sale'' stockWarningSubscriber (subscribe ''sale'' stockWarningSubscriber ?P)"
    "heap rewired = heap normalCase" "trace rewired = trace normalCase"
    by (simp_all add: rewired_def)
  have "returns (perform handlers 30 ?requests rewired) (\<lambda>w'. True)"
    by code_simp
  then obtain w' where w': "perform handlers 30 ?requests rewired = Some (Returned w')"
    by (auto simp: returns_iff)
  have "returns (perform handlers 30 ?requests normalCase) (\<lambda>w'. True)"
    by code_simp
  then obtain v' where v': "perform handlers 30 ?requests normalCase = Some (Returned v')"
    by (auto simp: returns_iff)
  note trip = subscribe_unsubscribe_round_trip [OF fresh, of rewired normalCase handlers 30 ?requests]
  have "same_service (service rewired) ?P"
    "unsubscribe ''sale'' stockWarningSubscriber (service rewired) = service rewired"
    using trip [of "Returned w'"] worlds(1) by simp_all
  moreover have "\<exists>m r'. perform handlers m ?requests normalCase = Some r' \<and> alike_outcome (Returned w') r'"
    using trip [of "Returned w'"] worlds w' by blast
  moreover have "\<exists>m r'. perform handlers m ?requests rewired = Some r' \<and> alike_outcome (Returned v') r'"
    using trip [of "Returned v'"] worlds v' by blast
  ultimately show ?thesis
    unfolding w' v' returns.simps using fresh worlds(2,3) by blast
qed


section \<open>The scenario of the wired system\<close>

text \<open>
  Claim C8. In the wired system with three machines at stock 10, publishing a sale of 8
  for machine 001 leaves it at 2 and delivers a low-stock event to the stock-warning
  subscriber, which writes exactly one warning for 001; a following sale of 1 (stock 1)
  publishes and delivers a second low-stock event, but the subscriber writes no second
  warning; a following refill of 5 (stock 6) publishes a stock-ok event, and the
  subscriber writes exactly one cleared report. The console is given in full at each
  stage: the lines \<open>LowStockWarning\<close> and \<open>StockLevelOK\<close> are the subscriber's reports,
  the others are the lines of the sale and refill subscribers.
\<close>

theorem scenario_sale_sale_refill:
  "returns (publish handlers 30 (MachineSaleEvent 8 ''001'') normalCase) (\<lambda>w1.
     map stockLevel (machines (heap w1)) = [2, 10, 10] \<and>
     trace w1 =
       [Published (MachineSaleEvent 8 ''001''), DrainBegin,
        Shifted (MachineSaleEvent 8 ''001''), Handled saleSubscriber (MachineSaleEvent 8 ''001''),
        Published (LowStockWarningEvent ''001''),
        Shifted (LowStockWarningEvent ''001''),
        Handled stockWarningSubscriber (LowStockWarningEvent ''001''), DrainEnd] \<and>
     console (heap w1) =
       [SoldItem ''001'' 2, LowOnStock ''001'' 2, LowStockWarning ''001''] \<and>
     returns (publish handlers 30 (MachineSaleEvent 1 ''001'') w1) (\<lambda>w2.
       map stockLevel (machines (heap w2)) = [1, 10, 10] \<and>
       console (heap w2) =
         [SoldItem ''001'' 2, LowOnStock ''001'' 2, LowStockWarning ''001'',
          SoldItem ''001'' 1, LowOnStock ''001'' 1] \<and>
       returns (publish handlers 30 (MachineRefillEvent 5 ''001'') w2) (\<lambda>w3.
         map stockLevel (machines (heap w3)) = [6, 10, 10] \<and>
         drop 16 (trace w3) =
           [Published (MachineRefillEvent 5 ''001''), DrainBegin,
            Shifted (MachineRefillEvent 5 ''001''),
            Handled refillSubscriber (MachineRefillEvent 5 ''001''),
            Published (StockLevelOkEvent ''001''),
            Shifted (StockLevelOkEvent ''001''),
            Handled stockWarningSubscriber (StockLevelOkEvent ''001''), DrainEnd] \<and>
         console (heap w3) =
           [SoldItem ''001'' 2, LowOnStock ''001'' 2, LowStockWarning ''001'',
            SoldItem ''001'' 1, LowOnStock ''001'' 1,
            Refilled ''001'' 6, StockIsOk ''001'' 6, StockLevelOK ''001''])))"
  by code_simp

end
